theory Spec2Isabelle
  imports Complex_Main "HOL-Library.Sublist"
begin

section \<open>Text: Python \<open>str\<close> values and \<open>str.strip\<close>\<close>

text \<open>
  A Python \<open>str\<close> is a sequence of Unicode code points, so a \<open>str\<close> is a list of code
  points (natural numbers); \<open>lit\<close> gives the code points of an ASCII literal of the
  source. Byte strings (\<open>bytes\<close>, and the ASCII output of \<open>quote\<close>) are
  \<open>string\<close>s: a HOL \<open>char\<close> is one byte.
\<close>

type_synonym str = "nat list"

type_synonym bytes = "string"

definition lit :: "string \<Rightarrow> str" where
  "lit s = map of_char s"

text \<open>
  \<open>str.isspace\<close> of one character, as CPython decides it: the ASCII controls
  U+0009..U+000D and U+001C..U+001F, the space, and the Unicode white space
  U+0085, U+00A0, U+1680, U+2000..U+200A, U+2028, U+2029, U+202F, U+205F, U+3000.
\<close>

definition is_space :: "nat \<Rightarrow> bool" where
  "is_space c \<longleftrightarrow>
     (9 \<le> c \<and> c \<le> 13) \<or> (28 \<le> c \<and> c \<le> 32) \<or> c = 133 \<or> c = 160 \<or> c = 5760 \<or>
     (8192 \<le> c \<and> c \<le> 8202) \<or> c = 8232 \<or> c = 8233 \<or> c = 8239 \<or> c = 8287 \<or> c = 12288"

definition lstrip :: "str \<Rightarrow> str" where
  "lstrip s = dropWhile is_space s"

definition rstrip :: "str \<Rightarrow> str" where
  "rstrip s = rev (dropWhile is_space (rev s))"

text \<open>\<open>s.strip()\<close>: white space is removed at both ends, and only there.\<close>

definition strip :: "str \<Rightarrow> str" where
  "strip s = rstrip (lstrip s)"

section \<open>Prompt composition: \<open>build_prompt\<close>\<close>

text \<open>
  \<^verbatim>\<open>base = f"{style} style, {prompt}".strip()\<close>, then
  \<^verbatim>\<open>if negative.strip(): base += f". Negative prompt: {negative.strip()}"\<close>.
  A Python string is true when it is not empty.
\<close>

definition build_prompt :: "str \<Rightarrow> str \<Rightarrow> str \<Rightarrow> str" where
  "build_prompt style prompt negative =
     (let base = strip (style @ lit '' style, '' @ prompt)
      in if strip negative \<noteq> []
         then base @ lit ''. Negative prompt: '' @ strip negative
         else base)"

section \<open>Request URL: \<open>quote\<close> and \<open>pollinations_url\<close>\<close>

datatype error = UnicodeEncodeError | RequestError string

text \<open>
  \<open>str.encode('utf-8', 'strict')\<close>, one code point at a time: one to four bytes; a
  surrogate (U+D800..U+DFFF) raises \<open>UnicodeEncodeError\<close>. A number from 0x110000 on is
  no character of a Python \<open>str\<close>; it is refused in the same way.
\<close>

definition utf8_char :: "nat \<Rightarrow> error + bytes" where
  "utf8_char c =
     (if c < 0x80 then Inr [char_of c]
      else if c < 0x800 then Inr [char_of (0xC0 + c div 64), char_of (0x80 + c mod 64)]
      else if 0xD800 \<le> c \<and> c < 0xE000 then Inl UnicodeEncodeError
      else if c < 0x10000 then
        Inr [char_of (0xE0 + c div 4096), char_of (0x80 + c div 64 mod 64),
             char_of (0x80 + c mod 64)]
      else if c < 0x110000 then
        Inr [char_of (0xF0 + c div 262144), char_of (0x80 + c div 4096 mod 64),
             char_of (0x80 + c div 64 mod 64), char_of (0x80 + c mod 64)]
      else Inl UnicodeEncodeError)"

fun encode_utf8 :: "str \<Rightarrow> error + bytes" where
  "encode_utf8 [] = Inr []"
| "encode_utf8 (c # cs) =
     (case utf8_char c of
        Inl e \<Rightarrow> Inl e
      | Inr bs \<Rightarrow> (case encode_utf8 cs of Inl e \<Rightarrow> Inl e | Inr rest \<Rightarrow> Inr (bs @ rest)))"

text \<open>
  \<open>urllib.parse\<close>: the bytes never quoted,
  \<^verbatim>\<open>_ALWAYS_SAFE = frozenset(b'ABC...Z' b'abc...z' b'0123456789' b'_.-~')\<close>,
  and the quoter of one byte,
  \<^verbatim>\<open>chr(b) if b in self.safe else '%{:02X}'.format(b)\<close>.
\<close>

definition ALWAYS_SAFE :: "bytes" where
  "ALWAYS_SAFE =
     ''ABCDEFGHIJKLMNOPQRSTUVWXYZ'' @ ''abcdefghijklmnopqrstuvwxyz'' @ ''0123456789'' @ ''_.-~''"

definition hex_digit :: "nat \<Rightarrow> char" where
  "hex_digit d = ''0123456789ABCDEF'' ! (d mod 16)"

definition hex2 :: "char \<Rightarrow> string" where
  "hex2 b = [hex_digit (of_char b div 16), hex_digit (of_char b mod 16)]"

definition quoter :: "bytes \<Rightarrow> char \<Rightarrow> string" where
  "quoter safe b = (if b \<in> set (ALWAYS_SAFE @ safe) then [b] else CHR ''%'' # hex2 b)"

definition quote_from_bytes :: "bytes \<Rightarrow> bytes \<Rightarrow> string" where
  "quote_from_bytes bs safe = concat (map (quoter safe) bs)"

text \<open>\<open>quote(string)\<close> with its defaults: \<open>safe='/'\<close>, UTF-8, strict errors.\<close>

definition quote :: "str \<Rightarrow> error + string" where
  "quote s = (case encode_utf8 s of Inl e \<Rightarrow> Inl e | Inr bs \<Rightarrow> Inr (quote_from_bytes bs ''/''))"

text \<open>\<open>str(n)\<close> of a Python integer, as an f-string formats it: decimal, with a sign.\<close>

fun str_nat :: "nat \<Rightarrow> string" where
  "str_nat n =
     (if n < 10 then [''0123456789'' ! n] else str_nat (n div 10) @ [''0123456789'' ! (n mod 10)])"

declare str_nat.simps [simp del]

definition str_int :: "int \<Rightarrow> string" where
  "str_int i = (if i < 0 then CHR ''-'' # str_nat (nat (- i)) else str_nat (nat i))"

text \<open>
  \<^verbatim>\<open>encoded = quote(final_prompt)\<close>,
  \<^verbatim>\<open>url = f"https://image.pollinations.ai/prompt/{encoded}?width={width}&height={height}"\<close>,
  \<^verbatim>\<open>if seed is not None: url += f"&seed={seed}"\<close>.
\<close>

definition pollinations_url :: "str \<Rightarrow> int \<Rightarrow> int \<Rightarrow> int option \<Rightarrow> error + string" where
  "pollinations_url final_prompt width height seed =
     (case quote final_prompt of
        Inl e \<Rightarrow> Inl e
      | Inr encoded \<Rightarrow>
          (let url = ''https://image.pollinations.ai/prompt/'' @ encoded @
                     ''?width='' @ str_int width @ ''&height='' @ str_int height
           in case seed of
                None \<Rightarrow> Inr url
              | Some s \<Rightarrow> Inr (url @ ''&seed='' @ str_int s)))"

section \<open>Fetching with a cache: \<open>fetch_image_bytes\<close>\<close>

text \<open>
  What \<^verbatim>\<open>requests.get(url, timeout=30)\<close> gives: an exception (no connection, time-out)
  or a response with its status code and content. \<open>raise_for_status\<close> raises for a
  status from 400 to 599.
\<close>

datatype http = ConnectionFailed string | Response nat bytes

definition raise_for_status :: "http \<Rightarrow> error + bytes" where
  "raise_for_status r =
     (case r of
        ConnectionFailed msg \<Rightarrow> Inl (RequestError msg)
      | Response status content \<Rightarrow>
          (if 400 \<le> status \<and> status < 600 then Inl (RequestError (''HTTP '' @ str_nat status))
           else Inr content))"

text \<open>
  The world outside the script: the store of \<^verbatim>\<open>@st.cache_data(ttl=60 * 60)\<close>, which
  keeps for a URL the bytes returned and the time they were stored, and the calls of
  \<open>requests.get\<close> made so far, in order.
\<close>

record world =
  cache :: "string \<rightharpoonup> bytes \<times> real"
  requests :: "string list"

definition ttl :: real where
  "ttl = 60 * 60"

text \<open>
  Modelled from the spec: the store behind \<^verbatim>\<open>@st.cache_data\<close> is Streamlit's and not in
  the repository; the script only sets its time to live. As the spec words it, a mapping
  from URL to bytes and the time of the fetch, with an expiry check on read: a stored entry
  is returned while the timer is below the time it was stored plus the time to live; from
  then on it counts as absent.
\<close>

definition cache_lookup :: "real \<Rightarrow> (string \<rightharpoonup> bytes \<times> real) \<Rightarrow> string \<Rightarrow> bytes option" where
  "cache_lookup now c url =
     (case c url of
        None \<Rightarrow> None
      | Some (content, stored) \<Rightarrow> if now < stored + ttl then Some content else None)"

text \<open>
  The decorated function, called at time \<open>now\<close> of the cache's timer while the remote
  end answers \<open>remote url\<close>: a live entry is returned as it is; otherwise the body runs,
  \<^verbatim>\<open>r = requests.get(url, timeout=30); r.raise_for_status(); return r.content\<close>,
  and what it returns is stored under the URL with the time \<open>now\<close> (successful responses
  only, as the spec has it). An exception passes through and stores nothing.
\<close>

definition fetch_image_bytes ::
  "(string \<Rightarrow> http) \<Rightarrow> real \<Rightarrow> world \<Rightarrow> string \<Rightarrow> (error + bytes) \<times> world" where
  "fetch_image_bytes remote now wd url =
     (case cache_lookup now (cache wd) url of
        Some content \<Rightarrow> (Inr content, wd)
      | None \<Rightarrow>
          (let wd1 = wd\<lparr>requests := requests wd @ [url]\<rparr>
           in case raise_for_status (remote url) of
                Inl e \<Rightarrow> (Inl e, wd1)
              | Inr content \<Rightarrow> (Inr content, wd1\<lparr>cache := (cache wd1)(url \<mapsto> (content, now))\<rparr>)))"

section \<open>Session state: history and favorites\<close>

datatype style = Realistic | Photorealistic | Cartoon | Fantasy | Cyberpunk | Anime

fun style_name :: "style \<Rightarrow> string" where
  "style_name Realistic = ''Realistic''"
| "style_name Photorealistic = ''Photorealistic''"
| "style_name Cartoon = ''Cartoon''"
| "style_name Fantasy = ''Fantasy''"
| "style_name Cyberpunk = ''Cyberpunk''"
| "style_name Anime = ''Anime''"

text \<open>The dictionary pushed to the history: \<open>{url, prompt, style, w, h, seed, ts}\<close>.\<close>

record gen_record =
  r_url :: string
  r_prompt :: str
  r_style :: style
  r_w :: int
  r_h :: int
  r_seed :: "int option"
  r_ts :: string

record session_state =
  history :: "gen_record list"
  favorites :: "gen_record list"

text \<open>\<open>init_state\<close> on a new session: both lists are created empty.\<close>

definition init_state :: session_state where
  "init_state = \<lparr>history = [], favorites = []\<rparr>"

text \<open>\<^verbatim>\<open>st.session_state.history.insert(0, {...})\<close>\<close>

definition history_insert :: "gen_record \<Rightarrow> session_state \<Rightarrow> session_state" where
  "history_insert r ss = ss\<lparr>history := r # history ss\<rparr>"

text \<open>\<^verbatim>\<open>if clear: st.session_state.history = []\<close>\<close>

definition clear_history :: "session_state \<Rightarrow> session_state" where
  "clear_history ss = ss\<lparr>history := []\<rparr>"

text \<open>\<^verbatim>\<open>st.session_state.favorites.insert(0, item)\<close>\<close>

definition favorites_insert :: "gen_record \<Rightarrow> session_state \<Rightarrow> session_state" where
  "favorites_insert item ss = ss\<lparr>favorites := item # favorites ss\<rparr>"

section \<open>The generate handler\<close>

datatype seed_mode = Random | Fixed

datatype ratio = Square | Reels | Landscape | Instagram

text \<open>\<open>RATIO_PRESETS\<close>, by the position of its key.\<close>

fun RATIO_PRESETS :: "ratio \<Rightarrow> int \<times> int" where
  "RATIO_PRESETS Square = (1024, 1024)"
| "RATIO_PRESETS Reels = (768, 1365)"
| "RATIO_PRESETS Landscape = (1365, 768)"
| "RATIO_PRESETS Instagram = (1024, 1280)"

text \<open>The values of the widgets when the script runs.\<close>

record inputs =
  in_prompt :: str
  in_negative :: str
  in_style :: style
  in_ratio :: ratio
  in_use_custom :: bool
  in_width :: int
  in_height :: int
  in_variations :: nat
  in_seed_mode :: seed_mode
  in_seed :: int

definition size_of :: "inputs \<Rightarrow> int \<times> int" where
  "size_of inp = (if in_use_custom inp then (in_width inp, in_height inp) else RATIO_PRESETS (in_ratio inp))"

text \<open>\<^verbatim>\<open>seed_value = None\<close>, then the number input when \<^verbatim>\<open>seed_mode == "Fixed"\<close>.\<close>

definition seed_value :: "inputs \<Rightarrow> int option" where
  "seed_value inp = (if in_seed_mode inp = Fixed then Some (in_seed inp) else None)"

text \<open>
  What the run reads from outside, by the step that reads it:
  \<open>utcnow_ms i\<close> is \<^verbatim>\<open>int(datetime.utcnow().timestamp() * 1000)\<close> as iteration \<open>i\<close> of
  the URL loop reads it, \<open>timer idx\<close> the cache's timer and \<open>remote idx\<close> the answers of
  the remote end when image \<open>idx\<close> is fetched, and \<open>now_str idx\<close> is
  \<^verbatim>\<open>datetime.now().strftime("%Y-%m-%d %H:%M:%S")\<close> when image \<open>idx\<close> is recorded.
\<close>

record env =
  utcnow_ms :: "nat \<Rightarrow> int"
  timer :: "nat \<Rightarrow> real"
  remote :: "nat \<Rightarrow> string \<Rightarrow> http"
  now_str :: "nat \<Rightarrow> string"

text \<open>
  \<^verbatim>\<open>seed_i = seed_value\<close>, and in Random mode
  \<^verbatim>\<open>seed_i = int(datetime.utcnow().timestamp() * 1000) % 1000000 + i\<close>:
  the clock is read anew in every iteration.
\<close>

definition seed_i :: "env \<Rightarrow> seed_mode \<Rightarrow> int option \<Rightarrow> nat \<Rightarrow> int option" where
  "seed_i e mode sv i = (if mode = Random then Some (utcnow_ms e i mod 1000000 + int i) else sv)"

text \<open>
  The first loop, over \<^verbatim>\<open>range(variations)\<close>:
  \<^verbatim>\<open>url = pollinations_url(final_prompt, int(w), int(h), seed_i); urls.append((url, seed_i))\<close>.
  An exception of \<open>pollinations_url\<close> is not caught: it ends the run.
\<close>

fun url_loop ::
  "env \<Rightarrow> str \<Rightarrow> int \<Rightarrow> int \<Rightarrow> seed_mode \<Rightarrow> int option \<Rightarrow> nat list \<Rightarrow>
   (string \<times> int option) list \<Rightarrow> error + (string \<times> int option) list" where
  "url_loop e final_prompt w h mode sv [] urls = Inr urls"
| "url_loop e final_prompt w h mode sv (i # rest) urls =
     (case pollinations_url final_prompt w h (seed_i e mode sv i) of
        Inl err \<Rightarrow> Inl err
      | Inr url \<Rightarrow> url_loop e final_prompt w h mode sv rest (urls @ [(url, seed_i e mode sv i)]))"

text \<open>\<open>str.lower\<close> on the ASCII names of the styles; \<open>f"{s}"\<close> of a seed that may be \<open>None\<close>.\<close>

definition lower :: "string \<Rightarrow> string" where
  "lower s = map (\<lambda>c. if 65 \<le> (of_char c :: nat) \<and> (of_char c :: nat) \<le> 90
                        then char_of ((of_char c :: nat) + 32) else c) s"

definition str_seed :: "int option \<Rightarrow> string" where
  "str_seed s = (case s of None \<Rightarrow> ''None'' | Some v \<Rightarrow> str_int v)"

text \<open>
  What the run has produced so far: the URLs built, the images downloaded, the failures
  reported with \<open>st.error\<close> (image number and exception), the warning of a refused
  request, the URLs handed to \<open>fetch_image_bytes\<close> in the order of the calls, and the
  session state and the world as the run leaves them.
\<close>

record run =
  urls :: "(string \<times> int option) list"
  images_downloaded :: "(string \<times> bytes) list"
  failures :: "(nat \<times> error) list"
  warnings :: "string list"
  fetched :: "string list"
  session :: session_state
  outside :: world

definition start :: "session_state \<Rightarrow> world \<Rightarrow> run" where
  "start ss wd =
     \<lparr>urls = [], images_downloaded = [], failures = [], warnings = [], fetched = [],
      session = ss, outside = wd\<rparr>"

text \<open>
  One iteration of the second loop, for image \<open>idx\<close> (counted from 1) with its URL and
  seed: the body of the \<open>try\<close> on success, the \<open>except Exception\<close> branch on failure.
\<close>

definition download_step ::
  "env \<Rightarrow> style \<Rightarrow> str \<Rightarrow> int \<Rightarrow> int \<Rightarrow> nat \<Rightarrow> string \<times> int option \<Rightarrow> run \<Rightarrow> run" where
  "download_step e sty final_prompt w h idx us st =
     (case fetch_image_bytes (remote e idx) (timer e idx) (outside st) (fst us) of
        (Inr img_bytes, wd) \<Rightarrow>
          st\<lparr>images_downloaded := images_downloaded st @
                [(''ps333_'' @ lower (style_name sty) @ ''_'' @ str_nat idx @ ''_seed'' @
                  str_seed (snd us) @ ''.png'', img_bytes)],
             session := history_insert
                \<lparr>r_url = fst us, r_prompt = final_prompt, r_style = sty, r_w = w, r_h = h,
                 r_seed = snd us, r_ts = now_str e idx\<rparr> (session st),
             fetched := fetched st @ [fst us],
             outside := wd\<rparr>
      | (Inl err, wd) \<Rightarrow>
          st\<lparr>failures := failures st @ [(idx, err)],
             fetched := fetched st @ [fst us],
             outside := wd\<rparr>)"

text \<open>\<^verbatim>\<open>for idx, (url, s) in enumerate(urls, start=1)\<close>\<close>

fun download_loop ::
  "env \<Rightarrow> style \<Rightarrow> str \<Rightarrow> int \<Rightarrow> int \<Rightarrow> nat \<Rightarrow> (string \<times> int option) list \<Rightarrow> run \<Rightarrow> run" where
  "download_loop e sty final_prompt w h idx [] st = st"
| "download_loop e sty final_prompt w h idx (us # rest) st =
     download_loop e sty final_prompt w h (Suc idx) rest
       (download_step e sty final_prompt w h idx us st)"

text \<open>
  The branch of a valid prompt: the final prompt, the URLs, the downloads. The display
  of the results is left out; it changes nothing of the state.
\<close>

definition generate_batch :: "env \<Rightarrow> inputs \<Rightarrow> session_state \<Rightarrow> world \<Rightarrow> error + run" where
  "generate_batch e inp ss wd =
     (let final_prompt = build_prompt (lit (style_name (in_style inp))) (in_prompt inp) (in_negative inp);
          (w, h) = size_of inp
      in case url_loop e final_prompt w h (in_seed_mode inp) (seed_value inp)
                [0..<in_variations inp] [] of
           Inl err \<Rightarrow> Inl err
         | Inr us \<Rightarrow>
             Inr (download_loop e (in_style inp) final_prompt w h 1 us ((start ss wd)\<lparr>urls := us\<rparr>)))"

text \<open>
  \<^verbatim>\<open>if gen: if not prompt.strip(): st.warning("Please enter a valid prompt.") else: ...\<close>
\<close>

definition generate :: "env \<Rightarrow> inputs \<Rightarrow> session_state \<Rightarrow> world \<Rightarrow> error + run" where
  "generate e inp ss wd =
     (if strip (in_prompt inp) = []
      then Inr ((start ss wd)\<lparr>warnings := [''Please enter a valid prompt.'']\<rparr>)
      else generate_batch e inp ss wd)"

section \<open>The fetches of a batch and what is to be recorded of them\<close>

text \<open>
  The calls \<^verbatim>\<open>fetch_image_bytes(url)\<close> of the second loop taken on their own: the URLs
  are fetched one after the other, image \<open>idx\<close> at its own time and with the answer the
  remote end gives then, each call starting from the world the call before left. The
  result is what every call returned, in the order of the calls, and the world after the
  last one.
\<close>

fun fetch_each :: "env \<Rightarrow> nat \<Rightarrow> string list \<Rightarrow> world \<Rightarrow> (error + bytes) list \<times> world" where
  "fetch_each e idx [] wd = ([], wd)"
| "fetch_each e idx (url # rest) wd =
     (case fetch_image_bytes (remote e idx) (timer e idx) wd url of
        (res, wd1) \<Rightarrow> (case fetch_each e (Suc idx) rest wd1 of (rs, wd2) \<Rightarrow> (res # rs, wd2)))"

text \<open>
  What the spec asks of the loop, in the spec's words: a fetch failure for one variation is
  recorded as a failure entry (index and reason), and the variations after it are processed
  all the same. So the failures to report are read off the results of the fetches: the
  number of the image, counted from \<open>idx\<close>, with the exception, for every fetch that
  failed, and nothing for one that succeeded.
\<close>

fun failed_fetches :: "nat \<Rightarrow> (error + bytes) list \<Rightarrow> (nat \<times> error) list" where
  "failed_fetches idx [] = []"
| "failed_fetches idx (Inl err # rs) = (idx, err) # failed_fetches (Suc idx) rs"
| "failed_fetches idx (Inr img_bytes # rs) = failed_fetches (Suc idx) rs"

text \<open>
  Likewise the images to keep: for every fetch that succeeded, the file name of the
  \<^verbatim>\<open>images_downloaded.append\<close> of the script with the bytes that fetch returned; and the
  records to push to the history, one for every fetch that succeeded, in the order of the
  fetches.
\<close>

fun downloaded_images ::
  "style \<Rightarrow> nat \<Rightarrow> (string \<times> int option) list \<Rightarrow> (error + bytes) list \<Rightarrow> (string \<times> bytes) list" where
  "downloaded_images sty idx (us # rest) (Inr img_bytes # rs) =
     (''ps333_'' @ lower (style_name sty) @ ''_'' @ str_nat idx @ ''_seed'' @ str_seed (snd us) @ ''.png'',
      img_bytes) # downloaded_images sty (Suc idx) rest rs"
| "downloaded_images sty idx (us # rest) (Inl err # rs) = downloaded_images sty (Suc idx) rest rs"
| "downloaded_images sty idx us rs = []"

fun new_records ::
  "env \<Rightarrow> style \<Rightarrow> str \<Rightarrow> int \<Rightarrow> int \<Rightarrow> nat \<Rightarrow> (string \<times> int option) list \<Rightarrow>
   (error + bytes) list \<Rightarrow> gen_record list" where
  "new_records e sty final_prompt w h idx (us # rest) (Inr img_bytes # rs) =
     \<lparr>r_url = fst us, r_prompt = final_prompt, r_style = sty, r_w = w, r_h = h,
      r_seed = snd us, r_ts = now_str e idx\<rparr> # new_records e sty final_prompt w h (Suc idx) rest rs"
| "new_records e sty final_prompt w h idx (us # rest) (Inl err # rs) =
     new_records e sty final_prompt w h (Suc idx) rest rs"
| "new_records e sty final_prompt w h idx us rs = []"

section \<open>What \<open>quote\<close> does to one character\<close>

text \<open>
  The characters \<open>quote\<close> leaves as they are: the ASCII letters and digits, the four
  characters \<open>_ . - ~\<close> and the slash. Any other character is replaced by \<open>%XX\<close>, in
  upper-case hexadecimal, for each byte of its UTF-8 encoding.
\<close>

definition kept :: "nat \<Rightarrow> bool" where
  "kept c \<longleftrightarrow> c \<in> set (lit (ALWAYS_SAFE @ ''/''))"

definition percent_encoded :: "nat \<Rightarrow> string" where
  "percent_encoded c =
     (case utf8_char c of Inl e \<Rightarrow> [] | Inr bs \<Rightarrow> concat (map (\<lambda>b. CHR ''%'' # hex2 b) bs))"

text \<open>
  The texts \<open>quote\<close> can encode: every code point is a Unicode scalar value, that is, below
  0x110000 and no surrogate. Text that reaches the script from the browser is of this kind.
\<close>

definition encodable :: "str \<Rightarrow> bool" where
  "encodable s \<longleftrightarrow> (\<forall>c\<in>set s. c < 0x110000 \<and> \<not> (0xD800 \<le> c \<and> c < 0xE000))"

section \<open>An example run\<close>

definition example_env :: env where
  "example_env =
     \<lparr>utcnow_ms = (\<lambda>i. 5),
      timer = (\<lambda>idx. 10 * real idx),
      remote = (\<lambda>idx url. if idx = 2 then Response 503 [] else Response 200 ''png''),
      now_str = (\<lambda>idx. ''2024-01-01 00:00:00'')\<rparr>"

definition example_inputs :: inputs where
  "example_inputs =
     \<lparr>in_prompt = lit ''a fox'', in_negative = [], in_style = Anime, in_ratio = Square,
      in_use_custom = False, in_width = 512, in_height = 512, in_variations = 3,
      in_seed_mode = Random, in_seed = 12345\<rparr>"

definition empty_world :: world where
  "empty_world = \<lparr>cache = Map.empty, requests = []\<rparr>"

text \<open>A session that already has one record in its history and one favorite.\<close>

definition example_record :: "string \<Rightarrow> gen_record" where
  "example_record u =
     \<lparr>r_url = u, r_prompt = lit ''p'', r_style = Anime, r_w = 1024, r_h = 1024,
      r_seed = Some 5, r_ts = ''2024-01-01 00:00:00''\<rparr>"

definition example_session :: session_state where
  "example_session = \<lparr>history = [example_record ''a''], favorites = [example_record ''f'']\<rparr>"

section \<open>Properties of \<open>strip\<close>\<close>

lemma lstrip_eq_Nil_iff: "lstrip s = [] \<longleftrightarrow> (\<forall>c\<in>set s. is_space c)"
  by (simp add: lstrip_def)

lemma rstrip_eq_Nil_iff: "rstrip s = [] \<longleftrightarrow> (\<forall>c\<in>set s. is_space c)"
  by (simp add: rstrip_def)

lemma strip_eq_Nil_iff: "strip s = [] \<longleftrightarrow> (\<forall>c\<in>set s. is_space c)"
proof -
  have "set (lstrip s) \<subseteq> set s"
    unfolding lstrip_def by (rule set_dropWhileD [THEN subsetI])
  moreover have "\<not> (\<forall>c\<in>set s. is_space c) \<Longrightarrow> \<exists>c\<in>set (lstrip s). \<not> is_space c"
    unfolding lstrip_def
    by (metis dropWhile_eq_Nil_conv hd_dropWhile hd_in_set)
  ultimately show ?thesis
    unfolding strip_def rstrip_eq_Nil_iff by blast
qed

lemma lstrip_append: "lstrip s \<noteq> [] \<Longrightarrow> lstrip (s @ t) = lstrip s @ t"
  by (auto simp: lstrip_def dropWhile_append1)

lemma rstrip_append: "rstrip t \<noteq> [] \<Longrightarrow> rstrip (s @ t) = s @ rstrip t"
  by (auto simp: rstrip_def dropWhile_append1)

lemma rstrip_last: "rstrip s \<noteq> [] \<Longrightarrow> \<not> is_space (last (rstrip s))"
  unfolding rstrip_def by (metis hd_dropWhile last_rev rev_is_Nil_conv)

lemma strip_last: "strip s \<noteq> [] \<Longrightarrow> \<not> is_space (last (strip s))"
  unfolding strip_def by (rule rstrip_last)

text \<open>
  Between a first part that holds a character other than white space and a last part
  that holds one, nothing is removed.
\<close>

lemma strip_outer:
  assumes "lstrip s \<noteq> []" and "rstrip p \<noteq> []"
  shows "strip (s @ m @ p) = lstrip s @ m @ rstrip p"
proof -
  have "strip (s @ m @ p) = rstrip (lstrip s @ m @ p)"
    using assms(1) by (simp add: strip_def lstrip_append)
  also have "\<dots> = rstrip ((lstrip s @ m) @ p)" by simp
  also have "\<dots> = (lstrip s @ m) @ rstrip p"
    using assms(2) by (rule rstrip_append)
  finally show ?thesis by simp
qed

lemma not_suffix_space:
  assumes "is_space (last t)" and "t \<noteq> []"
  shows "\<not> suffix t (strip s)"
proof
  assume "suffix t (strip s)"
  then obtain zs where eq: "strip s = zs @ t" by (auto simp: suffix_def)
  with assms have "strip s \<noteq> []" and "last (strip s) = last t" by auto
  with strip_last [of s] assms(1) show False by simp
qed

section \<open>Prompt composition\<close>

text \<open>
  Claim C2, as the code has it. \<open>build_prompt\<close> strips the white space at the two ends of
  the whole string \<open>"{style} style, {prompt}"\<close> and nowhere else: the result begins with
  that stripped string; when the negative prompt is not blank, exactly
  \<open>". Negative prompt: "\<close> and the stripped negative prompt follow, and otherwise
  nothing follows; the result ends with that suffix if and only if the negative prompt
  is not blank. When style and prompt each hold a character other than white space, the
  stripped string is the style without its leading white space, \<open>" style, "\<close>, and the
  prompt without its trailing white space: the leading white space of the prompt stays.
\<close>

theorem build_prompt_shape:
  "prefix (strip (style @ lit '' style, '' @ prompt)) (build_prompt style prompt negative)
   \<and> (if strip negative \<noteq> []
      then build_prompt style prompt negative =
             strip (style @ lit '' style, '' @ prompt) @ lit ''. Negative prompt: '' @ strip negative
      else build_prompt style prompt negative = strip (style @ lit '' style, '' @ prompt))
   \<and> (suffix (lit ''. Negative prompt: '' @ strip negative) (build_prompt style prompt negative)
        \<longleftrightarrow> strip negative \<noteq> [])
   \<and> (lstrip style \<noteq> [] \<and> rstrip prompt \<noteq> [] \<longrightarrow>
        strip (style @ lit '' style, '' @ prompt) = lstrip style @ lit '' style, '' @ rstrip prompt)"
proof (intro conjI)
  show "prefix (strip (style @ lit '' style, '' @ prompt)) (build_prompt style prompt negative)"
    by (simp add: build_prompt_def Let_def)
  show "if strip negative \<noteq> []
      then build_prompt style prompt negative =
             strip (style @ lit '' style, '' @ prompt) @ lit ''. Negative prompt: '' @ strip negative
      else build_prompt style prompt negative = strip (style @ lit '' style, '' @ prompt)"
    by (simp add: build_prompt_def Let_def)
  show "suffix (lit ''. Negative prompt: '' @ strip negative) (build_prompt style prompt negative)
        \<longleftrightarrow> strip negative \<noteq> []"
  proof (cases "strip negative = []")
    case True
    have "is_space (last (lit ''. Negative prompt: ''))" "lit ''. Negative prompt: '' \<noteq> []"
      by (simp_all add: lit_def is_space_def)
    from not_suffix_space [OF this] True show ?thesis
      by (simp add: build_prompt_def Let_def)
  next
    case False
    then show ?thesis
      by (simp add: build_prompt_def Let_def suffix_def del: append_assoc)
  qed
  show "lstrip style \<noteq> [] \<and> rstrip prompt \<noteq> [] \<longrightarrow>
        strip (style @ lit '' style, '' @ prompt) = lstrip style @ lit '' style, '' @ rstrip prompt"
    using strip_outer by blast
qed

lemmas text_defs = build_prompt_def strip_def lstrip_def rstrip_def lit_def is_space_def

theorem build_prompt_shape_witness:
  "lstrip (lit '' Realistic'') \<noteq> [] \<and> rstrip (lit '' a fox  '') \<noteq> [] \<and>
   strip (lit '' blurry '') \<noteq> [] \<and>
   strip (lit '' Realistic'' @ lit '' style, '' @ lit '' a fox  '') = lit ''Realistic style,  a fox'' \<and>
   build_prompt (lit '' Realistic'') (lit '' a fox  '') (lit '' blurry '') =
     lit ''Realistic style,  a fox. Negative prompt: blurry''"
  using build_prompt_shape [of "lit '' Realistic''" "lit '' a fox  ''" "lit '' blurry ''"]
  by (simp add: text_defs)

text \<open>
  The claim as the spec words it fails: the prompt is not trimmed on its own. With the
  prompt \<open>" fox"\<close> the result keeps two spaces after the comma, so it does not begin with
  \<open>"Realistic style, fox"\<close>.
\<close>

theorem build_prompt_trim_counterexample:
  "build_prompt (lit ''Realistic'') (lit '' fox'') [] = lit ''Realistic style,  fox'' \<and>
   \<not> prefix (strip (lit ''Realistic'' @ lit '' style, '' @ strip (lit '' fox'')))
        (build_prompt (lit ''Realistic'') (lit '' fox'') [])"
  by (simp add: text_defs)

section \<open>The request URL\<close>

lemma kept_ascii: "kept c \<Longrightarrow> c < 128"
  by (auto simp: kept_def lit_def ALWAYS_SAFE_def)

lemma safe_iff_kept:
  assumes "c < 256"
  shows "char_of c \<in> set (ALWAYS_SAFE @ ''/'') \<longleftrightarrow> kept c"
proof
  assume "char_of c \<in> set (ALWAYS_SAFE @ ''/'')"
  then have "(of_char (char_of c) :: nat) \<in> of_char ` set (ALWAYS_SAFE @ ''/'')" by (rule imageI)
  with assms show "kept c" by (simp add: kept_def lit_def)
next
  assume "kept c"
  then obtain x where "x \<in> set (ALWAYS_SAFE @ ''/'')" and "c = of_char x"
    unfolding kept_def lit_def set_map by (rule imageE)
  then show "char_of c \<in> set (ALWAYS_SAFE @ ''/'')" by simp
qed

lemma quoter_byte:
  "c < 256 \<Longrightarrow> quoter ''/'' (char_of c) = (if kept c then [char_of c] else CHR ''%'' # hex2 (char_of c))"
  by (simp add: quoter_def safe_iff_kept del: set_append)

lemma quote_one:
  assumes "utf8_char c = Inr bs"
  shows "quote_from_bytes bs ''/'' = (if kept c then [char_of c] else percent_encoded c)"
proof (cases "c < 128")
  case True
  with assms have "bs = [char_of c]" by (simp add: utf8_char_def)
  with True show ?thesis
    by (simp add: quote_from_bytes_def quoter_byte percent_encoded_def utf8_char_def)
next
  case False
  then have nk: "\<not> kept c" using kept_ascii by blast
  have hi: "\<And>n::nat. 128 \<le> n \<Longrightarrow> n < 256 \<Longrightarrow> quoter ''/'' (char_of n) = CHR ''%'' # hex2 (char_of n)"
    using kept_ascii by (fastforce simp add: quoter_byte)
  from assms False have "map (quoter ''/'') bs = map (\<lambda>b. CHR ''%'' # hex2 b) bs"
    by (auto simp: utf8_char_def hi split: if_splits)
  then have "quote_from_bytes bs ''/'' = concat (map (\<lambda>b. CHR ''%'' # hex2 b) bs)"
    unfolding quote_from_bytes_def by (rule arg_cong)
  with nk assms show ?thesis
    by (simp add: percent_encoded_def)
qed

lemma quote_from_bytes_append:
  "quote_from_bytes (a @ b) safe = quote_from_bytes a safe @ quote_from_bytes b safe"
  by (simp add: quote_from_bytes_def)

lemma quote_per_char:
  "quote p = Inr enc \<Longrightarrow> enc = concat (map (\<lambda>c. if kept c then [char_of c] else percent_encoded c) p)"
proof (induction p arbitrary: enc)
  case Nil
  then show ?case by (simp add: quote_def quote_from_bytes_def)
next
  case (Cons c p)
  from Cons.prems obtain bs rest where c: "utf8_char c = Inr bs" and r: "encode_utf8 p = Inr rest"
    and enc: "enc = quote_from_bytes (bs @ rest) ''/''"
    by (auto simp: quote_def split: sum.splits)
  from r have "quote p = Inr (quote_from_bytes rest ''/'')" by (simp add: quote_def)
  from Cons.IH [OF this] c enc show ?case
    by (simp add: quote_from_bytes_append quote_one)
qed

lemma hex2_chars: "set (hex2 b) \<subseteq> set ''0123456789ABCDEF''"
proof -
  have "\<And>d. hex_digit d \<in> set ''0123456789ABCDEF''"
    unfolding hex_digit_def by (rule nth_mem) simp
  then show ?thesis by (simp add: hex2_def)
qed

lemma concat_marked_subset:
  assumes "\<And>b. set (f b) \<subseteq> set H"
  shows "set (concat (map (\<lambda>b. x # f b) bs)) \<subseteq> set (x # H)"
  using assms by (induction bs) auto

lemma percent_encoded_chars: "set (percent_encoded c) \<subseteq> set ''%0123456789ABCDEF''"
proof (cases "utf8_char c")
  case (Inl e)
  then show ?thesis by (simp add: percent_encoded_def)
next
  case (Inr bs)
  have "set (concat (map (\<lambda>b. CHR ''%'' # hex2 b) bs)) \<subseteq> set (CHR ''%'' # ''0123456789ABCDEF'')"
    using hex2_chars by (rule concat_marked_subset)
  with Inr show ?thesis by (simp only: percent_encoded_def sum.case)
qed

lemma utf8_char_nonempty: "utf8_char c = Inr bs \<Longrightarrow> bs \<noteq> []"
  by (auto simp: utf8_char_def split: if_splits)

lemma percent_encoded_length:
  "utf8_char c = Inr bs \<Longrightarrow> length (percent_encoded c) = 3 * length bs"
  by (simp add: percent_encoded_def length_concat comp_def hex2_def sum_list_triv)

lemma encode_utf8_member:
  "encode_utf8 p = Inr bs \<Longrightarrow> c \<in> set p \<Longrightarrow> \<exists>cs. utf8_char c = Inr cs"
  by (induction p arbitrary: bs) (auto split: sum.splits)

lemma str_nat_no_eq: "CHR ''='' \<notin> set (str_nat n)"
proof (induction n rule: str_nat.induct)
  case (1 n)
  define D where "D = ''0123456789''"
  have len: "length D = 10" by (simp add: D_def)
  have no: "CHR ''='' \<notin> set D" by (simp add: D_def)
  have d: "D ! k \<noteq> CHR ''=''" if "k < 10" for k
    using nth_mem [of k D] that len no by metis
  have eq: "str_nat n = (if n < 10 then [D ! n] else str_nat (n div 10) @ [D ! (n mod 10)])"
    unfolding D_def by (rule str_nat.simps)
  show ?case
  proof (cases "n < 10")
    case True
    with d [of n] eq show ?thesis by simp
  next
    case False
    have "n mod 10 < 10" by simp
    from d [OF this] "1.IH" [OF False] False eq show ?thesis by simp
  qed
qed

lemma str_int_no_eq: "CHR ''='' \<notin> set (str_int i)"
  using str_nat_no_eq by (simp add: str_int_def)

lemma split_at_last:
  assumes "x \<notin> set a" and "x \<notin> set b" and "u @ x # a = v @ x # b"
  shows "a = b \<and> u = v"
proof -
  have "rev a @ x # rev u = rev b @ x # rev v"
    using assms(3) by (metis rev.simps(2) rev_append append_assoc append_Cons append_Nil)
  moreover have "takeWhile (\<lambda>y. y \<noteq> x) (rev a @ x # rev u) = rev a"
    using assms(1) by (auto simp: takeWhile_tail)
  moreover have "takeWhile (\<lambda>y. y \<noteq> x) (rev b @ x # rev v) = rev b"
    using assms(2) by (auto simp: takeWhile_tail)
  ultimately have "rev a = rev b" by simp
  with assms(3) show ?thesis by simp
qed

lemma no_seed_suffix:
  "\<not> suffix (''&seed='' @ str_int s) (pre @ ''&height='' @ str_int h)"
proof
  assume "suffix (''&seed='' @ str_int s) (pre @ ''&height='' @ str_int h)"
  then obtain zs where "pre @ ''&height='' @ str_int h = zs @ ''&seed='' @ str_int s"
    by (auto simp: suffix_def)
  then have "(pre @ ''&height'') @ CHR ''='' # str_int h = (zs @ ''&seed'') @ CHR ''='' # str_int s"
    by simp
  from split_at_last [OF str_int_no_eq str_int_no_eq this]
  have "pre @ ''&height'' = zs @ ''&seed''" by simp
  then have "last (pre @ ''&height'') = last (zs @ ''&seed'')" by simp
  then show False by simp
qed

lemma utf8_char_defined_iff:
  "(\<exists>bs. utf8_char c = Inr bs) \<longleftrightarrow> c < 0x110000 \<and> \<not> (0xD800 \<le> c \<and> c < 0xE000)"
  by (auto simp: utf8_char_def)

lemma encode_utf8_defined_iff: "(\<exists>bs. encode_utf8 s = Inr bs) \<longleftrightarrow> encodable s"
proof (induction s)
  case Nil
  then show ?case by (simp add: encodable_def)
next
  case (Cons c s)
  have e: "encodable (c # s) \<longleftrightarrow> (\<exists>bs. utf8_char c = Inr bs) \<and> encodable s"
    unfolding utf8_char_defined_iff by (simp add: encodable_def)
  show ?case
    unfolding e Cons.IH [symmetric] by (auto split: sum.splits)
qed

lemma quote_defined_iff: "(\<exists>encoded. quote s = Inr encoded) \<longleftrightarrow> encodable s"
  unfolding encode_utf8_defined_iff [symmetric] by (auto simp: quote_def split: sum.splits)

lemma encodable_append: "encodable (a @ b) \<longleftrightarrow> encodable a \<and> encodable b"
  by (auto simp: encodable_def)

lemma encodable_lit: "encodable (lit s)"
proof -
  have b: "(of_char c :: nat) < 256" for c :: char by simp
  have "(of_char c :: nat) < 0x110000 \<and> \<not> (0xD800 \<le> (of_char c :: nat) \<and> (of_char c :: nat) < 0xE000)"
    for c :: char
    using b [of c] by arith
  then show ?thesis by (simp add: encodable_def lit_def)
qed

lemma set_strip: "set (strip s) \<subseteq> set s"
proof -
  have "set (rstrip t) \<subseteq> set t" for t
    unfolding rstrip_def using set_dropWhileD [of _ is_space "rev t"] by auto
  moreover have "set (lstrip s) \<subseteq> set s"
    unfolding lstrip_def using set_dropWhileD [of _ is_space s] by auto
  ultimately show ?thesis unfolding strip_def by blast
qed

lemma encodable_strip: "encodable s \<Longrightarrow> encodable (strip s)"
  using set_strip [of s] by (auto simp: encodable_def)

lemma encodable_build_prompt:
  "encodable style \<Longrightarrow> encodable prompt \<Longrightarrow> encodable negative \<Longrightarrow>
   encodable (build_prompt style prompt negative)"
  by (simp add: build_prompt_def Let_def encodable_append encodable_lit encodable_strip)

lemma pollinations_url_value:
  "quote final_prompt = Inr encoded \<Longrightarrow>
   pollinations_url final_prompt width height seed =
     Inr (''https://image.pollinations.ai/prompt/'' @ encoded @ ''?width='' @ str_int width @
          ''&height='' @ str_int height @
          (case seed of None \<Rightarrow> [] | Some s \<Rightarrow> ''&seed='' @ str_int s))"
  by (simp add: pollinations_url_def split: option.splits)

text \<open>
  Claim C3. For a prompt that UTF-8 can encode, \<open>quote\<close> gives the encoded prompt and
  \<open>pollinations_url\<close> returns exactly
  \<open>https://image.pollinations.ai/prompt/{encoded}?width={width}&height={height}\<close>,
  followed by \<open>&seed={seed}\<close> when a seed is given and by nothing when it is \<open>None\<close>;
  and the URL ends with \<open>&seed=\<close> and a number if and only if a seed is given.
\<close>

theorem pollinations_url_exact:
  assumes "encodable final_prompt"
  shows "\<exists>encoded url. quote final_prompt = Inr encoded \<and>
           pollinations_url final_prompt width height seed = Inr url \<and>
           url = ''https://image.pollinations.ai/prompt/'' @ encoded @ ''?width='' @ str_int width @
                 ''&height='' @ str_int height @
                 (case seed of None \<Rightarrow> [] | Some s \<Rightarrow> ''&seed='' @ str_int s) \<and>
           ((\<exists>s. suffix (''&seed='' @ str_int s) url) \<longleftrightarrow> seed \<noteq> None)"
proof -
  from assms obtain encoded where q: "quote final_prompt = Inr encoded"
    using quote_defined_iff by blast
  show ?thesis
  proof (cases seed)
    case None
    have "\<not> suffix (''&seed='' @ str_int s)
            ((''https://image.pollinations.ai/prompt/'' @ encoded @ ''?width='' @ str_int width) @
             ''&height='' @ str_int height)" for s
      by (rule no_seed_suffix)
    with None q show ?thesis
      by (simp add: pollinations_url_def)
  next
    case (Some v)
    have "suffix (''&seed='' @ str_int v)
            ((''https://image.pollinations.ai/prompt/'' @ encoded @ ''?width='' @ str_int width @
             ''&height='' @ str_int height) @ ''&seed='' @ str_int v)"
      by (rule suffix_appendI) simp
    then have "\<exists>s. suffix (''&seed='' @ str_int s)
            (''https://image.pollinations.ai/prompt/'' @ encoded @ ''?width='' @ str_int width @
             ''&height='' @ str_int height @ ''&seed='' @ str_int v)"
      by (intro exI [of _ v]) simp
    with Some q show ?thesis
      by (simp add: pollinations_url_def)
  qed
qed

lemmas url_defs = pollinations_url_def quote_def utf8_char_def quote_from_bytes_def quoter_def
  ALWAYS_SAFE_def hex2_def hex_digit_def lit_def char_of_def bit_Suc_0_iff str_int_def
  str_nat.simps

theorem pollinations_url_exact_witness:
  "encodable (lit ''a b'') \<and>
   quote (lit ''a b'') = Inr ''a%20b'' \<and>
   pollinations_url (lit ''a b'') 1024 768 (Some 42) =
     Inr ''https://image.pollinations.ai/prompt/a%20b?width=1024&height=768&seed=42'' \<and>
   pollinations_url (lit ''a b'') 1024 768 None =
     Inr ''https://image.pollinations.ai/prompt/a%20b?width=1024&height=768''"
proof -
  have e: "encodable (lit ''a b'')"
    by (rule encodable_lit)
  have q: "quote (lit ''a b'') = Inr ''a%20b''"
    by (simp add: url_defs)
  from pollinations_url_exact [OF e, of 1024 768 "Some 42"]
    pollinations_url_exact [OF e, of 1024 768 None] q e
  show ?thesis by (auto simp: str_int_def str_nat.simps)
qed

text \<open>
  Claim C4, as the code has it. In the URL the prompt is replaced character by character:
  an ASCII letter or digit and each of \<open>_ . - ~ /\<close> stays as it is; any other character
  (the space, the other punctuation, every character outside ASCII) becomes \<open>%XX\<close> in
  upper-case hexadecimal for each byte of its UTF-8 encoding, so its replacement is not
  empty and holds only \<open>%\<close> and hexadecimal digits.
\<close>

theorem pollinations_url_percent_encoding:
  assumes "pollinations_url final_prompt width height seed = Inr url"
  shows "url = ''https://image.pollinations.ai/prompt/'' @
           concat (map (\<lambda>c. if kept c then [char_of c] else percent_encoded c) final_prompt) @
           ''?width='' @ str_int width @ ''&height='' @ str_int height @
           (case seed of None \<Rightarrow> [] | Some s \<Rightarrow> ''&seed='' @ str_int s)
       \<and> (\<forall>c\<in>set final_prompt. \<not> kept c \<longrightarrow>
             percent_encoded c \<noteq> [] \<and> set (percent_encoded c) \<subseteq> set ''%0123456789ABCDEF'')
       \<and> \<not> kept 32 \<and> (\<forall>c. 128 \<le> c \<longrightarrow> \<not> kept c)"
proof (intro conjI)
  from assms obtain encoded where q: "quote final_prompt = Inr encoded"
    by (auto simp: pollinations_url_def split: sum.splits)
  from pollinations_url_value [OF q, of width height seed] assms quote_per_char [OF q]
  show "url = ''https://image.pollinations.ai/prompt/'' @
           concat (map (\<lambda>c. if kept c then [char_of c] else percent_encoded c) final_prompt) @
           ''?width='' @ str_int width @ ''&height='' @ str_int height @
           (case seed of None \<Rightarrow> [] | Some s \<Rightarrow> ''&seed='' @ str_int s)"
    by auto
  from q obtain bs where e: "encode_utf8 final_prompt = Inr bs"
    by (auto simp: quote_def split: sum.splits)
  show "\<forall>c\<in>set final_prompt. \<not> kept c \<longrightarrow>
             percent_encoded c \<noteq> [] \<and> set (percent_encoded c) \<subseteq> set ''%0123456789ABCDEF''"
  proof (intro ballI impI conjI)
    fix c assume "c \<in> set final_prompt"
    from encode_utf8_member [OF e this] obtain cs where cs: "utf8_char c = Inr cs" ..
    from percent_encoded_length [OF cs] utf8_char_nonempty [OF cs]
    show "percent_encoded c \<noteq> []" by auto
    show "set (percent_encoded c) \<subseteq> set ''%0123456789ABCDEF''"
      by (rule percent_encoded_chars)
  qed
  show "\<not> kept 32" by (simp add: kept_def lit_def ALWAYS_SAFE_def)
  show "\<forall>c. 128 \<le> c \<longrightarrow> \<not> kept c" using kept_ascii by fastforce
qed

theorem pollinations_url_percent_encoding_witness:
  "pollinations_url (lit ''a b/c.'' @ [233]) 1024 768 None =
     Inr ''https://image.pollinations.ai/prompt/a%20b/c.%C3%A9?width=1024&height=768'' \<and>
   \<not> kept 233 \<and> percent_encoded 233 = ''%C3%A9'' \<and>
   set (percent_encoded 233) \<subseteq> set ''%0123456789ABCDEF''"
proof -
  have u: "pollinations_url (lit ''a b/c.'' @ [233]) 1024 768 None =
     Inr ''https://image.pollinations.ai/prompt/a%20b/c.%C3%A9?width=1024&height=768''"
    by (simp add: url_defs)
  have k: "\<not> kept 233"
    by (simp add: kept_def lit_def ALWAYS_SAFE_def)
  have p: "percent_encoded 233 = ''%C3%A9''"
    by (simp add: percent_encoded_def url_defs)
  have m: "233 \<in> set (lit ''a b/c.'' @ [233])"
    by simp
  from pollinations_url_percent_encoding [OF u, THEN conjunct2, THEN conjunct1] m k
  have "set (percent_encoded 233) \<subseteq> set ''%0123456789ABCDEF''"
    by blast
  with u k p show ?thesis by (intro conjI)
qed

text \<open>
  The claim as the spec words it fails: not every punctuation character is encoded.
  The slash and the full stop of the prompt \<open>a/b.c\<close> reach the URL as they are, and the
  slash splits the prompt into two path segments.
\<close>

theorem quote_keeps_punctuation_counterexample:
  "pollinations_url (lit ''a/b.c'') 1024 1024 None =
     Inr ''https://image.pollinations.ai/prompt/a/b.c?width=1024&height=1024''"
  by (simp add: url_defs)

section \<open>The cache\<close>

lemma cache_lookup_None_iff:
  "cache_lookup now c url = None \<longleftrightarrow>
     (c url = None \<or> (\<exists>content stored. c url = Some (content, stored) \<and> stored + ttl \<le> now))"
  by (auto simp: cache_lookup_def split: option.splits)

lemma cache_lookup_Some_iff:
  "cache_lookup now c url = Some content \<longleftrightarrow>
     (\<exists>stored. c url = Some (content, stored) \<and> now < stored + ttl)"
  by (auto simp: cache_lookup_def split: option.splits)

lemma fetch_hit:
  "cache_lookup now (cache wd) url = Some content \<Longrightarrow>
   fetch_image_bytes answer now wd url = (Inr content, wd)"
  by (simp add: fetch_image_bytes_def)

lemma fetch_miss_ok:
  "cache_lookup now (cache wd) url = None \<Longrightarrow> raise_for_status (answer url) = Inr content \<Longrightarrow>
   fetch_image_bytes answer now wd url =
     (Inr content, wd\<lparr>requests := requests wd @ [url], cache := (cache wd)(url \<mapsto> (content, now))\<rparr>)"
  by (simp add: fetch_image_bytes_def Let_def)

lemma fetch_miss_error:
  "cache_lookup now (cache wd) url = None \<Longrightarrow> raise_for_status (answer url) = Inl err \<Longrightarrow>
   fetch_image_bytes answer now wd url = (Inl err, wd\<lparr>requests := requests wd @ [url]\<rparr>)"
  by (simp add: fetch_image_bytes_def Let_def)

lemma refetch_within_ttl:
  assumes "cache wd1 url = Some (content, begun)" and "\<forall>t\<in>set ts. t < begun + ttl"
  shows "fold (\<lambda>t w. snd (fetch_image_bytes later t w url)) ts wd1 = wd1"
  using assms
proof (induction ts)
  case Nil
  then show ?case by simp
next
  case (Cons t ts)
  then have "cache_lookup t (cache wd1) url = Some content"
    by (simp add: cache_lookup_Some_iff)
  from fetch_hit [OF this] Cons show ?case by simp
qed

lemma fetch_frame:
  "u \<noteq> url \<Longrightarrow> cache (snd (fetch_image_bytes answer now wd url)) u = cache wd u"
  by (auto simp: fetch_image_bytes_def Let_def split: option.splits sum.splits)

lemma fetch_requests:
  "requests (snd (fetch_image_bytes answer now wd url)) =
     (if cache_lookup now (cache wd) url = None then requests wd @ [url] else requests wd)"
  by (auto simp: fetch_image_bytes_def Let_def split: option.splits sum.splits)

lemma fetch_keeps_live_entry:
  assumes "cache wd url = Some (content, begun)"
    and "u = url \<longrightarrow> now < begun + ttl"
  shows "cache (snd (fetch_image_bytes answer now wd u)) url = Some (content, begun)
       \<and> count_list (requests (snd (fetch_image_bytes answer now wd u))) url = count_list (requests wd) url"
proof (cases "u = url")
  case True
  with assms have "cache_lookup now (cache wd) url = Some content"
    by (simp add: cache_lookup_Some_iff)
  from fetch_hit [OF this] True assms(1) show ?thesis by simp
next
  case False
  with fetch_frame [of url u answer now wd] assms(1) show ?thesis
    by (simp add: fetch_requests)
qed

lemma fetches_keep_live_entry:
  assumes "cache wd url = Some (content, begun)"
    and "\<forall>c\<in>set calls. snd (snd c) = url \<longrightarrow> fst (snd c) < begun + ttl"
  shows "cache (fold (\<lambda>c w. snd (fetch_image_bytes (fst c) (fst (snd c)) w (snd (snd c)))) calls wd) url
           = Some (content, begun)
       \<and> count_list (requests (fold (\<lambda>c w. snd (fetch_image_bytes (fst c) (fst (snd c)) w (snd (snd c))))
                       calls wd)) url
           = count_list (requests wd) url"
  using assms
proof (induction calls arbitrary: wd)
  case Nil
  then show ?case by simp
next
  case (Cons c calls)
  let ?w = "snd (fetch_image_bytes (fst c) (fst (snd c)) wd (snd (snd c)))"
  from Cons.prems have "snd (snd c) = url \<longrightarrow> fst (snd c) < begun + ttl" by simp
  from fetch_keeps_live_entry [OF Cons.prems(1) this, of "fst c"]
  have k: "cache ?w url = Some (content, begun)"
    and n: "count_list (requests ?w) url = count_list (requests wd) url"
    by simp_all
  from Cons.prems(2) have "\<forall>c\<in>set calls. snd (snd c) = url \<longrightarrow> fst (snd c) < begun + ttl"
    by simp
  from Cons.IH [OF k this] n show ?case by simp
qed

text \<open>
  Claim C5. The time to live is 3600 seconds. When a fetch finds no live entry for its
  URL and the remote end answers with success, the bytes are returned, \<open>requests.get\<close>
  is called once, and the entry is stored with the time of the fetch, the entries of all
  other URLs left as they were; every later fetch of the same URL before that time plus
  3600 seconds returns the stored bytes and leaves the world as it is, so that no further
  call of \<open>requests.get\<close> is made, however many such fetches follow. The same holds when
  fetches of other URLs come in between, hits or misses, successes or failures, at any
  time: after any sequence of fetches in which those of this URL come before the expiry,
  the entry is still the one stored, \<open>requests.get\<close> has been called for this URL once
  and no more, and a further fetch of it before the expiry returns the stored bytes. A
  live entry is found exactly when one is stored whose time is less than 3600 seconds
  back, and the fetch then returns its bytes and changes nothing; an entry counts as absent
  exactly when there is none or when the stored one is 3600 seconds old or older; a fetch
  that finds none calls \<open>requests.get\<close> once, and stores the bytes anew when the call
  succeeds (an error is returned to the caller and the store keeps what it had). No fetch
  touches the entry of a URL other than its own.
\<close>

theorem fetch_image_bytes_cache:
  "ttl = 3600
   \<and> (cache_lookup begun (cache wd) url = None \<and> raise_for_status (origin url) = Inr content \<longrightarrow>
        (\<exists>wd1. fetch_image_bytes origin begun wd url = (Inr content, wd1)
           \<and> wd1 = wd\<lparr>requests := requests wd @ [url], cache := (cache wd)(url \<mapsto> (content, begun))\<rparr>
           \<and> requests wd1 = requests wd @ [url]
           \<and> cache wd1 url = Some (content, begun)
           \<and> (\<forall>moment. moment < begun + 3600 \<longrightarrow> fetch_image_bytes later moment wd1 url = (Inr content, wd1))
           \<and> (\<forall>ts. (\<forall>t\<in>set ts. t < begun + 3600) \<longrightarrow>
                 fold (\<lambda>t w. snd (fetch_image_bytes later t w url)) ts wd1 = wd1)
           \<and> (\<forall>calls. (\<forall>c\<in>set calls. snd (snd c) = url \<longrightarrow> fst (snd c) < begun + 3600) \<longrightarrow>
                 (\<exists>wd2. wd2 = fold (\<lambda>c w. snd (fetch_image_bytes (fst c) (fst (snd c)) w (snd (snd c))))
                               calls wd1
                    \<and> cache wd2 url = Some (content, begun)
                    \<and> count_list (requests wd2) url = count_list (requests wd) url + 1
                    \<and> (\<forall>moment. moment < begun + 3600 \<longrightarrow>
                          fetch_image_bytes later moment wd2 url = (Inr content, wd2))))))
   \<and> (cache_lookup now (cache wd) url = None \<longleftrightarrow>
        (cache wd url = None \<or>
         (\<exists>old stored. cache wd url = Some (old, stored) \<and> stored + 3600 \<le> now)))
   \<and> (cache_lookup now (cache wd) url = Some content \<longleftrightarrow>
        (\<exists>stored. cache wd url = Some (content, stored) \<and> now < stored + 3600))
   \<and> (cache_lookup now (cache wd) url = None \<longrightarrow>
        requests (snd (fetch_image_bytes answer now wd url)) = requests wd @ [url]
        \<and> (case raise_for_status (answer url) of
             Inr fresh \<Rightarrow> fst (fetch_image_bytes answer now wd url) = Inr fresh
                          \<and> cache (snd (fetch_image_bytes answer now wd url)) url = Some (fresh, now)
           | Inl err \<Rightarrow> fst (fetch_image_bytes answer now wd url) = Inl err
                        \<and> cache (snd (fetch_image_bytes answer now wd url)) = cache wd))
   \<and> (cache_lookup now (cache wd) url = Some content \<longrightarrow>
        fetch_image_bytes answer now wd url = (Inr content, wd))
   \<and> (cache_lookup now (cache wd) url = None \<and> raise_for_status (answer url) = Inr content \<longrightarrow>
        fetch_image_bytes answer now wd url =
          (Inr content, wd\<lparr>requests := requests wd @ [url], cache := (cache wd)(url \<mapsto> (content, now))\<rparr>))
   \<and> (cache_lookup now (cache wd) url = None \<and> raise_for_status (answer url) = Inl err \<longrightarrow>
        fetch_image_bytes answer now wd url = (Inl err, wd\<lparr>requests := requests wd @ [url]\<rparr>))
   \<and> (\<forall>u. u \<noteq> url \<longrightarrow> cache (snd (fetch_image_bytes answer now wd url)) u = cache wd u)"
proof (intro conjI)
  show t: "ttl = 3600" by (simp add: ttl_def)
  show "cache_lookup begun (cache wd) url = None \<and> raise_for_status (origin url) = Inr content \<longrightarrow>
        (\<exists>wd1. fetch_image_bytes origin begun wd url = (Inr content, wd1)
           \<and> wd1 = wd\<lparr>requests := requests wd @ [url], cache := (cache wd)(url \<mapsto> (content, begun))\<rparr>
           \<and> requests wd1 = requests wd @ [url]
           \<and> cache wd1 url = Some (content, begun)
           \<and> (\<forall>moment. moment < begun + 3600 \<longrightarrow> fetch_image_bytes later moment wd1 url = (Inr content, wd1))
           \<and> (\<forall>ts. (\<forall>t\<in>set ts. t < begun + 3600) \<longrightarrow>
                 fold (\<lambda>t w. snd (fetch_image_bytes later t w url)) ts wd1 = wd1)
           \<and> (\<forall>calls. (\<forall>c\<in>set calls. snd (snd c) = url \<longrightarrow> fst (snd c) < begun + 3600) \<longrightarrow>
                 (\<exists>wd2. wd2 = fold (\<lambda>c w. snd (fetch_image_bytes (fst c) (fst (snd c)) w (snd (snd c))))
                               calls wd1
                    \<and> cache wd2 url = Some (content, begun)
                    \<and> count_list (requests wd2) url = count_list (requests wd) url + 1
                    \<and> (\<forall>moment. moment < begun + 3600 \<longrightarrow>
                          fetch_image_bytes later moment wd2 url = (Inr content, wd2)))))"
  proof
    assume a: "cache_lookup begun (cache wd) url = None \<and> raise_for_status (origin url) = Inr content"
    define wd1 where "wd1 = wd\<lparr>requests := requests wd @ [url], cache := (cache wd)(url \<mapsto> (content, begun))\<rparr>"
    have f: "fetch_image_bytes origin begun wd url = (Inr content, wd1)"
      unfolding wd1_def using a by (simp add: fetch_miss_ok)
    have c: "cache wd1 url = Some (content, begun)" by (simp add: wd1_def)
    have r: "requests wd1 = requests wd @ [url]" by (simp add: wd1_def)
    have live: "fetch_image_bytes later moment w url = (Inr content, w)"
      if "cache w url = Some (content, begun)" and "moment < begun + 3600" for w moment
      using that t by (simp add: fetch_hit cache_lookup_Some_iff)
    have h: "\<forall>moment. moment < begun + 3600 \<longrightarrow> fetch_image_bytes later moment wd1 url = (Inr content, wd1)"
      using live [OF c] by blast
    have s: "\<forall>ts. (\<forall>t\<in>set ts. t < begun + 3600) \<longrightarrow>
                 fold (\<lambda>t w. snd (fetch_image_bytes later t w url)) ts wd1 = wd1"
      using refetch_within_ttl [OF c] t by simp
    have i: "\<forall>calls. (\<forall>c\<in>set calls. snd (snd c) = url \<longrightarrow> fst (snd c) < begun + 3600) \<longrightarrow>
                 (\<exists>wd2. wd2 = fold (\<lambda>c w. snd (fetch_image_bytes (fst c) (fst (snd c)) w (snd (snd c))))
                               calls wd1
                    \<and> cache wd2 url = Some (content, begun)
                    \<and> count_list (requests wd2) url = count_list (requests wd) url + 1
                    \<and> (\<forall>moment. moment < begun + 3600 \<longrightarrow>
                          fetch_image_bytes later moment wd2 url = (Inr content, wd2)))"
    proof (intro allI impI)
      fix calls :: "((string \<Rightarrow> http) \<times> real \<times> string) list"
      assume "\<forall>c\<in>set calls. snd (snd c) = url \<longrightarrow> fst (snd c) < begun + 3600"
      then have "\<forall>c\<in>set calls. snd (snd c) = url \<longrightarrow> fst (snd c) < begun + ttl"
        by (simp add: t)
      from fetches_keep_live_entry [OF c this]
      have k: "cache (fold (\<lambda>c w. snd (fetch_image_bytes (fst c) (fst (snd c)) w (snd (snd c)))) calls wd1) url
                 = Some (content, begun)"
        and n: "count_list (requests (fold (\<lambda>c w. snd (fetch_image_bytes (fst c) (fst (snd c)) w (snd (snd c))))
                       calls wd1)) url = count_list (requests wd1) url"
        by simp_all
      from n r have n': "count_list (requests (fold (\<lambda>c w. snd (fetch_image_bytes (fst c) (fst (snd c)) w (snd (snd c))))
                       calls wd1)) url = count_list (requests wd) url + 1"
        by simp
      from k n' live [OF k]
      show "\<exists>wd2. wd2 = fold (\<lambda>c w. snd (fetch_image_bytes (fst c) (fst (snd c)) w (snd (snd c))))
                               calls wd1
                    \<and> cache wd2 url = Some (content, begun)
                    \<and> count_list (requests wd2) url = count_list (requests wd) url + 1
                    \<and> (\<forall>moment. moment < begun + 3600 \<longrightarrow>
                          fetch_image_bytes later moment wd2 url = (Inr content, wd2))"
        by blast
    qed
    from f r c h s i wd1_def
    show "\<exists>wd1. fetch_image_bytes origin begun wd url = (Inr content, wd1)
           \<and> wd1 = wd\<lparr>requests := requests wd @ [url], cache := (cache wd)(url \<mapsto> (content, begun))\<rparr>
           \<and> requests wd1 = requests wd @ [url]
           \<and> cache wd1 url = Some (content, begun)
           \<and> (\<forall>moment. moment < begun + 3600 \<longrightarrow> fetch_image_bytes later moment wd1 url = (Inr content, wd1))
           \<and> (\<forall>ts. (\<forall>t\<in>set ts. t < begun + 3600) \<longrightarrow>
                 fold (\<lambda>t w. snd (fetch_image_bytes later t w url)) ts wd1 = wd1)
           \<and> (\<forall>calls. (\<forall>c\<in>set calls. snd (snd c) = url \<longrightarrow> fst (snd c) < begun + 3600) \<longrightarrow>
                 (\<exists>wd2. wd2 = fold (\<lambda>c w. snd (fetch_image_bytes (fst c) (fst (snd c)) w (snd (snd c))))
                               calls wd1
                    \<and> cache wd2 url = Some (content, begun)
                    \<and> count_list (requests wd2) url = count_list (requests wd) url + 1
                    \<and> (\<forall>moment. moment < begun + 3600 \<longrightarrow>
                          fetch_image_bytes later moment wd2 url = (Inr content, wd2))))"
      by (intro exI [of _ wd1] conjI)
  qed
  show "cache_lookup now (cache wd) url = None \<longleftrightarrow>
        (cache wd url = None \<or>
         (\<exists>old stored. cache wd url = Some (old, stored) \<and> stored + 3600 \<le> now))"
    using t by (simp add: cache_lookup_None_iff)
  show "cache_lookup now (cache wd) url = Some content \<longleftrightarrow>
        (\<exists>stored. cache wd url = Some (content, stored) \<and> now < stored + 3600)"
    using t by (simp add: cache_lookup_Some_iff)
  show "cache_lookup now (cache wd) url = None \<longrightarrow>
        requests (snd (fetch_image_bytes answer now wd url)) = requests wd @ [url]
        \<and> (case raise_for_status (answer url) of
             Inr fresh \<Rightarrow> fst (fetch_image_bytes answer now wd url) = Inr fresh
                          \<and> cache (snd (fetch_image_bytes answer now wd url)) url = Some (fresh, now)
           | Inl err \<Rightarrow> fst (fetch_image_bytes answer now wd url) = Inl err
                        \<and> cache (snd (fetch_image_bytes answer now wd url)) = cache wd)"
    by (cases "raise_for_status (answer url)") (simp_all add: fetch_miss_ok fetch_miss_error)
  show "cache_lookup now (cache wd) url = Some content \<longrightarrow>
        fetch_image_bytes answer now wd url = (Inr content, wd)"
    by (simp add: fetch_hit)
  show "cache_lookup now (cache wd) url = None \<and> raise_for_status (answer url) = Inr content \<longrightarrow>
        fetch_image_bytes answer now wd url =
          (Inr content, wd\<lparr>requests := requests wd @ [url], cache := (cache wd)(url \<mapsto> (content, now))\<rparr>)"
    by (simp add: fetch_miss_ok)
  show "cache_lookup now (cache wd) url = None \<and> raise_for_status (answer url) = Inl err \<longrightarrow>
        fetch_image_bytes answer now wd url = (Inl err, wd\<lparr>requests := requests wd @ [url]\<rparr>)"
    by (simp add: fetch_miss_error)
  show "\<forall>u. u \<noteq> url \<longrightarrow> cache (snd (fetch_image_bytes answer now wd url)) u = cache wd u"
    by (simp add: fetch_frame)
qed

lemmas run_defs = generate_def generate_batch_def size_of_def seed_value_def seed_i_def
  download_step_def fetch_image_bytes_def cache_lookup_def raise_for_status_def ttl_def
  start_def lower_def str_seed_def history_insert_def init_state_def
  example_env_def example_inputs_def empty_world_def upt_rec

theorem fetch_image_bytes_cache_witness:
  "\<exists>wd1 wd2. fetch_image_bytes (\<lambda>u. Response 200 ''png'') 0 empty_world ''A'' = (Inr ''png'', wd1)
      \<and> requests wd1 = [''A'']
      \<and> fetch_image_bytes (\<lambda>u. ConnectionFailed ''down'') 3599 wd1 ''A'' = (Inr ''png'', wd1)
      \<and> fst (fetch_image_bytes (\<lambda>u. ConnectionFailed ''down'') 3600 wd1 ''A'') = Inl (RequestError ''down'')
      \<and> requests (snd (fetch_image_bytes (\<lambda>u. ConnectionFailed ''down'') 3600 wd1 ''A'')) = [''A'', ''A'']
      \<and> fetch_image_bytes (\<lambda>u. Response 200 ''jpg'') 1 wd1 ''B'' = (Inr ''jpg'', wd2)
      \<and> requests wd2 = [''A'', ''B'']
      \<and> fetch_image_bytes (\<lambda>u. ConnectionFailed ''down'') 2 wd2 ''A'' = (Inr ''png'', wd2)"
proof -
  have m: "cache_lookup 0 (cache empty_world) ''A'' = None \<and>
           raise_for_status ((\<lambda>u. Response 200 ''png'') ''A'') = Inr ''png''"
    by (simp add: cache_lookup_def empty_world_def raise_for_status_def)
  note c = fetch_image_bytes_cache [where wd = empty_world and url = "''A''" and content = "''png''"
      and origin = "\<lambda>u. Response 200 ''png''" and later = "\<lambda>u. ConnectionFailed ''down''"
      and begun = 0]
  from c [THEN conjunct2, THEN conjunct1, rule_format, OF m]
  obtain wd1 where f: "fetch_image_bytes (\<lambda>u. Response 200 ''png'') 0 empty_world ''A'' = (Inr ''png'', wd1)"
    and w: "wd1 = empty_world\<lparr>requests := requests empty_world @ [''A''],
               cache := (cache empty_world)(''A'' \<mapsto> (''png'', 0))\<rparr>"
    and s: "cache wd1 ''A'' = Some (''png'', 0)"
    and h: "\<forall>moment. moment < 0 + 3600 \<longrightarrow>
              fetch_image_bytes (\<lambda>u. ConnectionFailed ''down'') moment wd1 ''A'' = (Inr ''png'', wd1)"
    and i: "\<forall>calls. (\<forall>c\<in>set calls. snd (snd c) = ''A'' \<longrightarrow> fst (snd c) < 0 + 3600) \<longrightarrow>
              (\<exists>wd2. wd2 = fold (\<lambda>c w. snd (fetch_image_bytes (fst c) (fst (snd c)) w (snd (snd c))))
                               calls wd1
                 \<and> cache wd2 ''A'' = Some (''png'', 0)
                 \<and> count_list (requests wd2) ''A'' = count_list (requests empty_world) ''A'' + 1
                 \<and> (\<forall>moment. moment < 0 + 3600 \<longrightarrow>
                       fetch_image_bytes (\<lambda>u. ConnectionFailed ''down'') moment wd2 ''A'' = (Inr ''png'', wd2)))"
    by blast
  define wd2 where "wd2 = snd (fetch_image_bytes (\<lambda>u. Response 200 ''jpg'') 1 wd1 ''B'')"
  from h have h': "fetch_image_bytes (\<lambda>u. ConnectionFailed ''down'') 3599 wd1 ''A'' = (Inr ''png'', wd1)"
    by simp
  from w have r': "requests wd1 = [''A'']"
    by (simp add: empty_world_def)
  have x: "cache_lookup 3600 (cache wd1) ''A'' = None"
    using s by (simp add: cache_lookup_def ttl_def)
  have e: "fetch_image_bytes (\<lambda>u. ConnectionFailed ''down'') 3600 wd1 ''A'' =
             (Inl (RequestError ''down''), wd1\<lparr>requests := requests wd1 @ [''A'']\<rparr>)"
    using x by (simp add: fetch_image_bytes_def raise_for_status_def Let_def)
  have b: "fetch_image_bytes (\<lambda>u. Response 200 ''jpg'') 1 wd1 ''B'' =
             (Inr ''jpg'', wd1\<lparr>requests := requests wd1 @ [''B''],
                              cache := (cache wd1)(''B'' \<mapsto> (''jpg'', 1))\<rparr>)"
    unfolding w
    by (simp add: fetch_image_bytes_def cache_lookup_def raise_for_status_def empty_world_def Let_def)
  then have b': "fetch_image_bytes (\<lambda>u. Response 200 ''jpg'') 1 wd1 ''B'' = (Inr ''jpg'', wd2)"
    by (simp add: wd2_def)
  from b have r2: "requests wd2 = [''A'', ''B'']"
    by (simp add: wd2_def r')
  from i [rule_format, of "[(\<lambda>u. Response 200 ''jpg'', 1, ''B'')]"]
  have "fetch_image_bytes (\<lambda>u. ConnectionFailed ''down'') 2 wd2 ''A'' = (Inr ''png'', wd2)"
    by (simp add: wd2_def)
  with f r' h' e b' r2 show ?thesis
    by (intro exI [of _ wd1] exI [of _ wd2]) simp
qed

section \<open>History and favorites\<close>

text \<open>
  Claim C7. The insert puts the record in front of the history as it was: the new history
  is the record followed by the old entries, in their order, so the record is at
  position 0, every old entry one position further, the history longer by exactly one; the
  favorites, and all else of the session state, are as before. The clear leaves the empty
  history, of length 0, and the favorites as before. The insert is the one the download
  loop performs: a step whose fetch succeeds leaves the session with its record in front
  of the history it had and the favorites it had, and a step whose fetch fails leaves the
  session as it was.
\<close>

theorem history_insert_clear:
  "history (history_insert r ss) = r # history ss
   \<and> history_insert r ss = ss\<lparr>history := r # history ss\<rparr>
   \<and> history (history_insert r ss) ! 0 = r
   \<and> (\<forall>k<length (history ss). history (history_insert r ss) ! Suc k = history ss ! k)
   \<and> length (history (history_insert r ss)) = length (history ss) + 1
   \<and> favorites (history_insert r ss) = favorites ss
   \<and> history (clear_history ss) = []
   \<and> clear_history ss = ss\<lparr>history := []\<rparr>
   \<and> length (history (clear_history ss)) = 0
   \<and> favorites (clear_history ss) = favorites ss
   \<and> (\<forall>img wd. fetch_image_bytes (remote e idx) (timer e idx) (outside st) (fst us) = (Inr img, wd) \<longrightarrow>
        session (download_step e sty final_prompt w h idx us st) =
          history_insert
            \<lparr>r_url = fst us, r_prompt = final_prompt, r_style = sty, r_w = w, r_h = h,
             r_seed = snd us, r_ts = now_str e idx\<rparr> (session st)
        \<and> history (session (download_step e sty final_prompt w h idx us st)) =
            \<lparr>r_url = fst us, r_prompt = final_prompt, r_style = sty, r_w = w, r_h = h,
             r_seed = snd us, r_ts = now_str e idx\<rparr> # history (session st)
        \<and> favorites (session (download_step e sty final_prompt w h idx us st)) = favorites (session st))
   \<and> (\<forall>err wd. fetch_image_bytes (remote e idx) (timer e idx) (outside st) (fst us) = (Inl err, wd) \<longrightarrow>
        session (download_step e sty final_prompt w h idx us st) = session st)"
  by (simp add: history_insert_def clear_history_def download_step_def)

theorem history_insert_clear_witness:
  "history (history_insert (example_record ''b'') example_session) =
     [example_record ''b'', example_record ''a'']
   \<and> favorites (history_insert (example_record ''b'') example_session) = [example_record ''f'']
   \<and> history (clear_history (history_insert (example_record ''b'') example_session)) = []
   \<and> favorites (clear_history (history_insert (example_record ''b'') example_session)) =
       [example_record ''f'']
   \<and> fetch_image_bytes (remote example_env 1) (timer example_env 1) empty_world ''u'' =
       (Inr ''png'', empty_world\<lparr>requests := [''u''], cache := [''u'' \<mapsto> (''png'', 10)]\<rparr>)
   \<and> history (session (download_step example_env Anime (lit ''p'') 1024 1024 1 (''u'', Some 5)
        (start example_session empty_world))) = [example_record ''u'', example_record ''a'']
   \<and> favorites (session (download_step example_env Anime (lit ''p'') 1024 1024 1 (''u'', Some 5)
        (start example_session empty_world))) = [example_record ''f'']"
proof -
  have f: "fetch_image_bytes (remote example_env 1) (timer example_env 1)
             (outside (start example_session empty_world)) (fst (''u'', Some (5::int))) =
       (Inr ''png'', empty_world\<lparr>requests := [''u''], cache := [''u'' \<mapsto> (''png'', 10)]\<rparr>)"
    by (simp add: fetch_image_bytes_def cache_lookup_def raise_for_status_def example_env_def
          empty_world_def start_def Let_def)
  note c = history_insert_clear [where e = example_env and idx = 1
      and st = "start example_session empty_world" and us = "(''u'', Some 5)"
      and sty = Anime and final_prompt = "lit ''p''" and w = 1024 and h = 1024]
  note i = c [where r = "example_record ''b''" and ss = example_session]
  note d = c [where r = "example_record ''b''"
      and ss = "history_insert (example_record ''b'') example_session"]
  from i have 1: "history (history_insert (example_record ''b'') example_session) =
     [example_record ''b'', example_record ''a'']"
    by (simp add: example_session_def)
  from i have 2: "favorites (history_insert (example_record ''b'') example_session) =
     [example_record ''f'']"
    by (simp add: example_session_def)
  from d have 3: "history (clear_history (history_insert (example_record ''b'') example_session)) = []"
    by simp
  from d 2 have 4: "favorites (clear_history (history_insert (example_record ''b'') example_session)) =
       [example_record ''f'']"
    by simp
  from i [THEN conjunct2, THEN conjunct2, THEN conjunct2, THEN conjunct2, THEN conjunct2,
          THEN conjunct2, THEN conjunct2, THEN conjunct2, THEN conjunct2, THEN conjunct2,
          THEN conjunct1, rule_format, OF f]
  have 5: "history (session (download_step example_env Anime (lit ''p'') 1024 1024 1 (''u'', Some 5)
        (start example_session empty_world))) = [example_record ''u'', example_record ''a'']"
    and 6: "favorites (session (download_step example_env Anime (lit ''p'') 1024 1024 1 (''u'', Some 5)
        (start example_session empty_world))) = [example_record ''f'']"
    by (simp_all add: start_def example_env_def example_session_def example_record_def
          history_insert_def)
  from f have 7: "fetch_image_bytes (remote example_env 1) (timer example_env 1) empty_world ''u'' =
       (Inr ''png'', empty_world\<lparr>requests := [''u''], cache := [''u'' \<mapsto> (''png'', 10)]\<rparr>)"
    by (simp add: start_def)
  from 1 2 3 4 5 6 7 show ?thesis by (intro conjI)
qed

section \<open>The batch\<close>

lemma url_loop_acc:
  "url_loop e fp w h mode sv is acc = Inr us \<Longrightarrow>
   length us = length acc + length is \<and> map snd us = map snd acc @ map (seed_i e mode sv) is"
proof (induction "is" arbitrary: acc)
  case Nil
  then show ?case by simp
next
  case (Cons i rest)
  then show ?case by (auto split: sum.splits)
qed

lemma download_step_cases:
  "(\<exists>name img. images_downloaded (download_step e sty fp w h idx us st) = images_downloaded st @ [(name, img)]
        \<and> failures (download_step e sty fp w h idx us st) = failures st
        \<and> history (session (download_step e sty fp w h idx us st)) =
            \<lparr>r_url = fst us, r_prompt = fp, r_style = sty, r_w = w, r_h = h,
             r_seed = snd us, r_ts = now_str e idx\<rparr> # history (session st))
   \<or> (\<exists>err. images_downloaded (download_step e sty fp w h idx us st) = images_downloaded st
        \<and> failures (download_step e sty fp w h idx us st) = failures st @ [(idx, err)]
        \<and> history (session (download_step e sty fp w h idx us st)) = history (session st))"
  by (auto simp: download_step_def history_insert_def split: prod.splits sum.splits)

lemma download_step_frame:
  "fetched (download_step e sty fp w h idx us st) = fetched st @ [fst us]"
  "urls (download_step e sty fp w h idx us st) = urls st"
  "warnings (download_step e sty fp w h idx us st) = warnings st"
  "favorites (session (download_step e sty fp w h idx us st)) = favorites (session st)"
  by (auto simp: download_step_def history_insert_def split: prod.splits sum.splits)

lemma download_loop_frame:
  "fetched (download_loop e sty fp w h idx us st) = fetched st @ map fst us
   \<and> urls (download_loop e sty fp w h idx us st) = urls st
   \<and> warnings (download_loop e sty fp w h idx us st) = warnings st
   \<and> favorites (session (download_loop e sty fp w h idx us st)) = favorites (session st)"
  by (induction us arbitrary: idx st) (simp_all add: download_step_frame)

lemma download_loop_counts:
  "length (images_downloaded (download_loop e sty fp w h idx us st)) +
     length (failures (download_loop e sty fp w h idx us st)) =
   length (images_downloaded st) + length (failures st) + length us
   \<and> length (history (session (download_loop e sty fp w h idx us st))) + length (images_downloaded st) =
     length (history (session st)) + length (images_downloaded (download_loop e sty fp w h idx us st))"
proof (induction us arbitrary: idx st)
  case Nil
  then show ?case by simp
next
  case (Cons u us)
  from download_step_cases [of e sty fp w h idx u st] Cons [of "Suc idx" "download_step e sty fp w h idx u st"]
  show ?case by auto
qed

lemma download_loop_failures:
  "\<exists>new. map fst (failures (download_loop e sty fp w h idx us st)) = map fst (failures st) @ new
         \<and> sorted new \<and> distinct new \<and> set new \<subseteq> {idx..<idx + length us}"
proof (induction us arbitrary: idx st)
  case Nil
  then show ?case by simp
next
  case (Cons u us)
  let ?st = "download_step e sty fp w h idx u st"
  from Cons [of "Suc idx" ?st] obtain new where
    new: "map fst (failures (download_loop e sty fp w h (Suc idx) us ?st)) = map fst (failures ?st) @ new"
      "sorted new" "distinct new" "set new \<subseteq> {Suc idx..<Suc idx + length us}"
    by blast
  from download_step_cases [of e sty fp w h idx u st]
  have "map fst (failures ?st) = map fst (failures st) \<or> map fst (failures ?st) = map fst (failures st) @ [idx]"
    by auto
  then show ?case
  proof
    assume "map fst (failures ?st) = map fst (failures st)"
    with new show ?thesis
      by (intro exI [of _ new]) auto
  next
    assume "map fst (failures ?st) = map fst (failures st) @ [idx]"
    with new show ?thesis
      by (intro exI [of _ "idx # new"]) (auto simp: subset_iff)
  qed
qed

lemma url_loop_defined:
  "quote fp = Inr encoded \<Longrightarrow> \<exists>us. url_loop e fp w h mode sv is acc = Inr us"
proof (induction "is" arbitrary: acc)
  case Nil
  then show ?case by simp
next
  case (Cons i rest)
  from pollinations_url_value [OF Cons.prems, of w h "seed_i e mode sv i"] Cons.IH [OF Cons.prems]
  show ?case by simp
qed

lemma generate_batch_defined:
  assumes "encodable (in_prompt inp)" and "encodable (in_negative inp)"
  shows "\<exists>r. generate_batch e inp ss wd = Inr r"
proof -
  have "encodable (build_prompt (lit (style_name (in_style inp))) (in_prompt inp) (in_negative inp))"
    using assms by (simp add: encodable_build_prompt encodable_lit)
  then obtain encoded where
    "quote (build_prompt (lit (style_name (in_style inp))) (in_prompt inp) (in_negative inp)) = Inr encoded"
    using quote_defined_iff by blast
  from url_loop_defined [OF this]
  obtain us where "url_loop e
      (build_prompt (lit (style_name (in_style inp))) (in_prompt inp) (in_negative inp))
      (fst (size_of inp)) (snd (size_of inp)) (in_seed_mode inp) (seed_value inp)
      [0..<in_variations inp] [] = Inr us"
    by blast
  then show ?thesis
    by (simp add: generate_batch_def Let_def split_beta)
qed

lemma fetch_each_length: "length (fst (fetch_each e idx us wd)) = length us"
  by (induction us arbitrary: idx wd) (simp_all add: split_beta)

lemma download_loop_outcomes:
  "outside (download_loop e sty fp w h idx us st) = snd (fetch_each e idx (map fst us) (outside st))
   \<and> failures (download_loop e sty fp w h idx us st) =
       failures st @ failed_fetches idx (fst (fetch_each e idx (map fst us) (outside st)))
   \<and> images_downloaded (download_loop e sty fp w h idx us st) =
       images_downloaded st @
         downloaded_images sty idx us (fst (fetch_each e idx (map fst us) (outside st)))
   \<and> history (session (download_loop e sty fp w h idx us st)) =
       rev (new_records e sty fp w h idx us (fst (fetch_each e idx (map fst us) (outside st))))
         @ history (session st)"
proof (induction us arbitrary: idx st)
  case Nil
  then show ?case by simp
next
  case (Cons u us)
  obtain res wd1 where f: "fetch_image_bytes (remote e idx) (timer e idx) (outside st) (fst u) = (res, wd1)"
    by (cases "fetch_image_bytes (remote e idx) (timer e idx) (outside st) (fst u)")
  obtain rs wd2 where g: "fetch_each e (Suc idx) (map fst us) wd1 = (rs, wd2)"
    by (cases "fetch_each e (Suc idx) (map fst us) wd1")
  let ?st = "download_step e sty fp w h idx u st"
  show ?case
  proof (cases res)
    case (Inl err)
    with f have s: "outside ?st = wd1" "failures ?st = failures st @ [(idx, err)]"
      "images_downloaded ?st = images_downloaded st" "session ?st = session st"
      by (simp_all add: download_step_def)
    from Cons [of "Suc idx" ?st] s f g Inl show ?thesis by simp
  next
    case (Inr img)
    with f have s: "outside ?st = wd1" "failures ?st = failures st"
      "images_downloaded ?st = images_downloaded st @
         [(''ps333_'' @ lower (style_name sty) @ ''_'' @ str_nat idx @ ''_seed'' @ str_seed (snd u) @ ''.png'', img)]"
      "history (session ?st) = \<lparr>r_url = fst u, r_prompt = fp, r_style = sty, r_w = w, r_h = h,
          r_seed = snd u, r_ts = now_str e idx\<rparr> # history (session st)"
      by (simp_all add: download_step_def history_insert_def)
    from Cons [of "Suc idx" ?st] s f g Inr show ?thesis by simp
  qed
qed

lemma failed_fetches_iff:
  "(n, err) \<in> set (failed_fetches idx rs) \<longleftrightarrow>
     idx \<le> n \<and> n - idx < length rs \<and> rs ! (n - idx) = Inl err"
proof (induction idx rs rule: failed_fetches.induct)
  case (1 idx)
  then show ?case by simp
next
  case (2 idx e rs)
  show ?case
  proof (cases "n = idx")
    case True
    with 2 show ?thesis by auto
  next
    case False
    with 2 show ?thesis
      by (auto simp: nth_Cons' Suc_diff_le less_Suc_eq_le not_less_eq_eq Suc_le_eq)
  qed
next
  case (3 idx b rs)
  show ?case
  proof (cases "n = idx")
    case True
    with 3 show ?thesis by auto
  next
    case False
    with 3 show ?thesis
      by (auto simp: nth_Cons' Suc_diff_le less_Suc_eq_le not_less_eq_eq Suc_le_eq)
  qed
qed

lemma downloaded_images_member:
  "k < length rs \<Longrightarrow> length us = length rs \<Longrightarrow> rs ! k = Inr img \<Longrightarrow>
   (''ps333_'' @ lower (style_name sty) @ ''_'' @ str_nat (idx + k) @ ''_seed'' @
      str_seed (snd (us ! k)) @ ''.png'', img) \<in> set (downloaded_images sty idx us rs)"
proof (induction sty idx us rs arbitrary: k rule: downloaded_images.induct)
  case (1 sty idx u rest b rs)
  then show ?case by (cases k) auto
next
  case (2 sty idx u rest e rs)
  then show ?case by (cases k) auto
qed auto

text \<open>
  Claim C6. For a prompt and a negative prompt that UTF-8 can encode, the batch returns;
  it has built as many URLs as there are variations and has handed every one of them to
  \<open>fetch_image_bytes\<close>, in the order of the variations, whatever failed on the way; the
  images downloaded and the failures reported together are as many as the variations; the
  failures carry the numbers of their images, in increasing order, each once, from 1 to
  the number of variations; and the history grew by one record for every image
  downloaded, the favorites unchanged. What the run recorded is what the fetches gave:
  the world it leaves is the world after fetching its URLs one after the other from the
  world it started in, there is one result for every variation, the failures reported are
  exactly the fetches that failed, each with the number of its image and its exception,
  the images kept are exactly the fetches that succeeded, each with its file name and the
  bytes fetched, and the history has received one record for each of those, the latest in
  front. So variation \<open>k + 1\<close> is among the failures, with its exception, when its fetch
  failed, and is not among them, its bytes being among the images, when its fetch
  succeeded.
\<close>

theorem generate_batch_attempts:
  assumes "encodable (in_prompt inp)" and "encodable (in_negative inp)"
  shows "\<exists>r results. generate_batch e inp ss wd = Inr r
       \<and> length (urls r) = in_variations inp
       \<and> fetched r = map fst (urls r)
       \<and> length (images_downloaded r) + length (failures r) = in_variations inp
       \<and> sorted (map fst (failures r)) \<and> distinct (map fst (failures r))
       \<and> set (map fst (failures r)) \<subseteq> {1..in_variations inp}
       \<and> length (history (session r)) = length (history ss) + length (images_downloaded r)
       \<and> favorites (session r) = favorites ss
       \<and> fetch_each e 1 (map fst (urls r)) wd = (results, outside r)
       \<and> length results = in_variations inp
       \<and> failures r = failed_fetches 1 results
       \<and> images_downloaded r = downloaded_images (in_style inp) 1 (urls r) results
       \<and> history (session r) =
           rev (new_records e (in_style inp)
                  (build_prompt (lit (style_name (in_style inp))) (in_prompt inp) (in_negative inp))
                  (fst (size_of inp)) (snd (size_of inp)) 1 (urls r) results) @ history ss
       \<and> (\<forall>k<in_variations inp.
             case results ! k of
               Inl err \<Rightarrow> (Suc k, err) \<in> set (failures r)
             | Inr img_bytes \<Rightarrow>
                 Suc k \<notin> fst ` set (failures r) \<and>
                 (''ps333_'' @ lower (style_name (in_style inp)) @ ''_'' @ str_nat (Suc k) @ ''_seed'' @
                    str_seed (snd (urls r ! k)) @ ''.png'', img_bytes) \<in> set (images_downloaded r))"
proof -
  from generate_batch_defined [OF assms] obtain r where ret: "generate_batch e inp ss wd = Inr r"
    by blast
  define fp where "fp = build_prompt (lit (style_name (in_style inp))) (in_prompt inp) (in_negative inp)"
  define w where "w = fst (size_of inp)"
  define h where "h = snd (size_of inp)"
  have wh: "size_of inp = (w, h)" by (simp add: w_def h_def)
  from ret obtain us where
    us: "url_loop e fp w h (in_seed_mode inp) (seed_value inp) [0..<in_variations inp] [] = Inr us"
    and r: "r = download_loop e (in_style inp) fp w h 1 us ((start ss wd)\<lparr>urls := us\<rparr>)"
    by (auto simp: generate_batch_def fp_def wh Let_def split: sum.splits)
  let ?st = "(start ss wd)\<lparr>urls := us\<rparr>"
  define results where "results = fst (fetch_each e 1 (map fst us) wd)"
  have n: "length us = in_variations inp"
    using url_loop_acc [OF us] by simp
  from download_loop_frame [of e "in_style inp" fp w h 1 us ?st]
  have f: "fetched r = map fst us" "urls r = us" "favorites (session r) = favorites ss"
    by (simp_all add: r start_def)
  from download_loop_counts [of e "in_style inp" fp w h 1 us ?st]
  have c: "length (images_downloaded r) + length (failures r) = length us"
    "length (history (session r)) = length (history ss) + length (images_downloaded r)"
    by (simp_all add: r start_def)
  from download_loop_failures [of e "in_style inp" fp w h 1 us ?st]
  have k: "sorted (map fst (failures r))" "distinct (map fst (failures r))"
    "set (map fst (failures r)) \<subseteq> {1..length us}"
    by (auto simp: r start_def)
  from download_loop_outcomes [of e "in_style inp" fp w h 1 us ?st]
  have o: "outside r = snd (fetch_each e 1 (map fst us) wd)"
    "failures r = failed_fetches 1 results"
    "images_downloaded r = downloaded_images (in_style inp) 1 us results"
    "history (session r) = rev (new_records e (in_style inp) fp w h 1 us results) @ history ss"
    by (simp_all add: r start_def results_def)
  have fe: "fetch_each e 1 (map fst us) wd = (results, outside r)"
    by (simp add: o(1) results_def)
  have len: "length results = length us"
    unfolding results_def using fetch_each_length [of e 1 "map fst us" wd] by simp
  have each: "case results ! k of
               Inl err \<Rightarrow> (Suc k, err) \<in> set (failures r)
             | Inr img_bytes \<Rightarrow>
                 Suc k \<notin> fst ` set (failures r) \<and>
                 (''ps333_'' @ lower (style_name (in_style inp)) @ ''_'' @ str_nat (Suc k) @ ''_seed'' @
                    str_seed (snd (us ! k)) @ ''.png'', img_bytes) \<in> set (images_downloaded r)"
    if "k < length us" for k
  proof (cases "results ! k")
    case (Inl err)
    with that len have "(Suc k, err) \<in> set (failed_fetches 1 results)"
      by (simp add: failed_fetches_iff)
    with Inl show ?thesis by (simp add: o(2))
  next
    case (Inr img)
    have "Suc k \<notin> fst ` set (failed_fetches 1 results)"
    proof
      assume "Suc k \<in> fst ` set (failed_fetches 1 results)"
      then obtain err where "(Suc k, err) \<in> set (failed_fetches 1 results)" by force
      with Inr show False by (simp add: failed_fetches_iff)
    qed
    moreover have kl: "k < length results" using that len by simp
    note downloaded_images_member [OF kl len [symmetric] Inr, of "in_style inp" 1,
        unfolded plus_1_eq_Suc]
    ultimately show ?thesis unfolding Inr o(2,3) by (simp only: sum.case simp_thms)
  qed
  have all: "\<forall>k<in_variations inp.
             case results ! k of
               Inl err \<Rightarrow> (Suc k, err) \<in> set (failures r)
             | Inr img_bytes \<Rightarrow>
                 Suc k \<notin> fst ` set (failures r) \<and>
                 (''ps333_'' @ lower (style_name (in_style inp)) @ ''_'' @ str_nat (Suc k) @ ''_seed'' @
                    str_seed (snd (urls r ! k)) @ ''.png'', img_bytes) \<in> set (images_downloaded r)"
    unfolding f(2) n [symmetric] using each by blast
  from ret n f c k o fe len all show ?thesis
    unfolding fp_def w_def h_def
    by (intro exI [of _ r] exI [of _ results] conjI) simp_all
qed

theorem generate_batch_attempts_witness:
  "encodable (in_prompt example_inputs) \<and> encodable (in_negative example_inputs) \<and>
   (\<exists>r. generate_batch example_env example_inputs init_state empty_world = Inr r
      \<and> failures r = [(2, RequestError ''HTTP 503'')]
      \<and> images_downloaded r =
          [(''ps333_anime_1_seed5.png'', ''png''), (''ps333_anime_3_seed7.png'', ''png'')]
      \<and> fetch_each example_env 1 (map fst (urls r)) empty_world =
          ([Inr ''png'', Inl (RequestError ''HTTP 503''), Inr ''png''], outside r)
      \<and> requests (outside r) = map fst (urls r)
      \<and> map r_seed (history (session r)) = [Some 7, Some 5]
      \<and> map fst (failures r) = [2]
      \<and> map fst (images_downloaded r) = [''ps333_anime_1_seed5.png'', ''ps333_anime_3_seed7.png'']
      \<and> length (fetched r) = 3
      \<and> length (images_downloaded r) + length (failures r) = 3
      \<and> length (history (session r)) = 2)"
proof -
  have p: "encodable (in_prompt example_inputs)"
    by (simp add: example_inputs_def encodable_lit)
  have q: "encodable (in_negative example_inputs)"
    by (simp add: example_inputs_def encodable_def)
  have "\<exists>r. generate_batch example_env example_inputs init_state empty_world = Inr r
      \<and> map snd (urls r) = [Some 5, Some 6, Some 7]
      \<and> requests (outside r) = map fst (urls r)
      \<and> distinct (map fst (urls r))"
    apply (simp add: run_defs url_defs text_defs)
    apply (simp add: Let_def)
    done
  then obtain r where r: "generate_batch example_env example_inputs init_state empty_world = Inr r"
    and s: "map snd (urls r) = [Some 5, Some 6, Some 7]"
    and o: "requests (outside r) = map fst (urls r)"
    and d: "distinct (map fst (urls r))"
    by (elim exE conjE)
  have n: "in_variations example_inputs = 3"
    by (simp add: example_inputs_def)
  have h: "history init_state = []"
    by (simp add: init_state_def)
  from generate_batch_attempts [OF p q, of example_env init_state empty_world]
  obtain r' results where r': "generate_batch example_env example_inputs init_state empty_world = Inr r'"
    and a: "fetched r' = map fst (urls r')" "length (urls r') = in_variations example_inputs"
      "length (images_downloaded r') + length (failures r') = in_variations example_inputs"
      "length (history (session r')) = length (history init_state) + length (images_downloaded r')"
    and b: "fetch_each example_env 1 (map fst (urls r')) empty_world = (results, outside r')"
      "length results = in_variations example_inputs"
      "failures r' = failed_fetches 1 results"
      "images_downloaded r' = downloaded_images (in_style example_inputs) 1 (urls r') results"
      "history (session r') =
         rev (new_records example_env (in_style example_inputs)
                (build_prompt (lit (style_name (in_style example_inputs))) (in_prompt example_inputs)
                   (in_negative example_inputs))
                (fst (size_of example_inputs)) (snd (size_of example_inputs)) 1 (urls r') results)
           @ history init_state"
    by blast
  from r r' have same: "r' = r" by simp
  note a = a [unfolded same] and b = b [unfolded same]
  from a(2) n obtain u1 u2 u3 where us: "urls r = [u1, u2, u3]"
    by (auto simp: length_Suc_conv numeral_3_eq_3)
  from s us have sn: "snd u1 = Some 5" "snd u2 = Some 6" "snd u3 = Some 7"
    by simp_all
  from d us have df: "fst u1 \<noteq> fst u2" "fst u1 \<noteq> fst u3" "fst u2 \<noteq> fst u3"
    by simp_all
  have "fst (fetch_each example_env 1 (map fst (urls r)) empty_world) =
          [Inr ''png'', Inl (RequestError ''HTTP 503''), Inr ''png'']"
    unfolding us using df
    by (simp add: fetch_image_bytes_def cache_lookup_def raise_for_status_def example_env_def
          empty_world_def ttl_def Let_def split_beta str_nat.simps)
  with b(1) have res: "results = [Inr ''png'', Inl (RequestError ''HTTP 503''), Inr ''png'']"
    by simp
  have fl: "failures r = [(2, RequestError ''HTTP 503'')]"
    unfolding b(3) res by (simp add: numeral_2_eq_2)
  have im: "images_downloaded r =
          [(''ps333_anime_1_seed5.png'', ''png''), (''ps333_anime_3_seed7.png'', ''png'')]"
    unfolding b(4) res us
    by (simp add: sn example_inputs_def lower_def str_seed_def str_int_def str_nat.simps
          char_of_def bit_Suc_0_iff)
  have hs: "map r_seed (history (session r)) = [Some 7, Some 5]"
    unfolding b(5) res us by (simp add: sn h)
  have "length (fetched r) = 3"
    using a(1,2) by (simp add: n)
  moreover have "length (images_downloaded r) + length (failures r) = 3"
    using a(3) by (simp add: n)
  moreover have "length (history (session r)) = 2"
    using a(4) by (simp add: h im)
  moreover have "map fst (failures r) = [2]"
    by (simp add: fl)
  moreover have "map fst (images_downloaded r) = [''ps333_anime_1_seed5.png'', ''ps333_anime_3_seed7.png'']"
    by (simp add: im)
  moreover have "fetch_each example_env 1 (map fst (urls r)) empty_world =
          ([Inr ''png'', Inl (RequestError ''HTTP 503''), Inr ''png''], outside r)"
    using b(1) res by simp
  ultimately have "\<exists>r. generate_batch example_env example_inputs init_state empty_world = Inr r
      \<and> failures r = [(2, RequestError ''HTTP 503'')]
      \<and> images_downloaded r =
          [(''ps333_anime_1_seed5.png'', ''png''), (''ps333_anime_3_seed7.png'', ''png'')]
      \<and> fetch_each example_env 1 (map fst (urls r)) empty_world =
          ([Inr ''png'', Inl (RequestError ''HTTP 503''), Inr ''png''], outside r)
      \<and> requests (outside r) = map fst (urls r)
      \<and> map r_seed (history (session r)) = [Some 7, Some 5]
      \<and> map fst (failures r) = [2]
      \<and> map fst (images_downloaded r) = [''ps333_anime_1_seed5.png'', ''ps333_anime_3_seed7.png'']
      \<and> length (fetched r) = 3
      \<and> length (images_downloaded r) + length (failures r) = 3
      \<and> length (history (session r)) = 2"
    using r fl im o hs by (intro exI [of _ r] conjI)
  with p q show ?thesis by (intro conjI)
qed

text \<open>
  Claim C9. When the prompt is empty or blank the handler returns with the warning only:
  no URL built, no fetch, no image, no failure, the session state and the world as they
  were. Otherwise it is the batch generation; and a run that built a URL or fetched
  one had a prompt that is not blank.
\<close>

theorem generate_rejects_blank_prompt:
  "(strip (in_prompt inp) = [] \<longrightarrow>
      (\<exists>r. generate e inp ss wd = Inr r \<and> urls r = [] \<and> fetched r = [] \<and>
           images_downloaded r = [] \<and> failures r = [] \<and>
           warnings r = [''Please enter a valid prompt.''] \<and>
           session r = ss \<and> outside r = wd))
   \<and> (strip (in_prompt inp) \<noteq> [] \<longrightarrow> generate e inp ss wd = generate_batch e inp ss wd)
   \<and> (\<forall>r. generate e inp ss wd = Inr r \<and> (urls r \<noteq> [] \<or> fetched r \<noteq> []) \<longrightarrow>
          strip (in_prompt inp) \<noteq> [])"
  by (auto simp: generate_def start_def)

theorem generate_rejects_blank_prompt_witness:
  "strip (in_prompt (example_inputs\<lparr>in_prompt := lit ''  ''\<rparr>)) = []
   \<and> generate example_env (example_inputs\<lparr>in_prompt := lit ''  ''\<rparr>) init_state empty_world =
       Inr ((start init_state empty_world)\<lparr>warnings := [''Please enter a valid prompt.'']\<rparr>)
   \<and> strip (in_prompt example_inputs) \<noteq> []
   \<and> generate example_env example_inputs init_state empty_world =
       generate_batch example_env example_inputs init_state empty_world"
proof -
  have b: "strip (in_prompt (example_inputs\<lparr>in_prompt := lit ''  ''\<rparr>)) = []"
    by (simp add: text_defs)
  have v: "strip (in_prompt example_inputs) \<noteq> []"
    by (simp add: text_defs example_inputs_def)
  from generate_rejects_blank_prompt
         [of "example_inputs\<lparr>in_prompt := lit ''  ''\<rparr>" example_env init_state empty_world,
          THEN conjunct1, rule_format, OF b]
  have "generate example_env (example_inputs\<lparr>in_prompt := lit ''  ''\<rparr>) init_state empty_world =
       Inr ((start init_state empty_world)\<lparr>warnings := [''Please enter a valid prompt.'']\<rparr>)"
    by (auto simp: start_def)
  moreover from generate_rejects_blank_prompt
         [of example_inputs example_env init_state empty_world,
          THEN conjunct2, THEN conjunct1, rule_format, OF v]
  have "generate example_env example_inputs init_state empty_world =
       generate_batch example_env example_inputs init_state empty_world" .
  ultimately show ?thesis using b v by (intro conjI)
qed

section \<open>Seeds\<close>

lemma seed_i_Random_bounds:
  "i < N \<Longrightarrow> \<exists>v. seed_i e Random sv i = Some v \<and> 0 \<le> v \<and> v \<le> 999999 + int N - 1"
proof -
  assume "i < N"
  have "0 \<le> utcnow_ms e i mod 1000000" "utcnow_ms e i mod 1000000 < 1000000"
    by simp_all
  with \<open>i < N\<close> show ?thesis by (simp add: seed_i_def)
qed

text \<open>
  Claim C10. In Random mode every seed of a batch of \<open>N\<close> variations lies between 0 and
  \<open>999999 + N - 1\<close>; and a seed can exceed 999999: it is 1000000 for the variation of
  index 1 when the clock reads 999999 modulo 1000000.
\<close>

theorem random_seed_bounds:
  "(\<forall>i<N. \<exists>v. seed_i e Random sv i = Some v \<and> 0 \<le> v \<and> v \<le> 999999 + int N - 1)
   \<and> (\<forall>us. url_loop e fp w h Random sv [0..<N] [] = Inr us \<longrightarrow>
         (\<forall>s\<in>set (map snd us). \<exists>v. s = Some v \<and> 0 \<le> v \<and> v \<le> 999999 + int N - 1))
   \<and> seed_i (e\<lparr>utcnow_ms := \<lambda>i. 999999\<rparr>) Random sv 1 = Some 1000000"
proof (intro conjI allI impI ballI)
  fix i assume "i < N"
  then show "\<exists>v. seed_i e Random sv i = Some v \<and> 0 \<le> v \<and> v \<le> 999999 + int N - 1"
    by (rule seed_i_Random_bounds)
next
  fix us s
  assume "url_loop e fp w h Random sv [0..<N] [] = Inr us" and "s \<in> set (map snd us)"
  with url_loop_acc [of e fp w h Random sv "[0..<N]" "[]" us]
  obtain i where "i < N" and "s = seed_i e Random sv i" by auto
  with seed_i_Random_bounds [of i N e sv]
  show "\<exists>v. s = Some v \<and> 0 \<le> v \<and> v \<le> 999999 + int N - 1" by simp
next
  show "seed_i (e\<lparr>utcnow_ms := \<lambda>i. 999999\<rparr>) Random sv 1 = Some 1000000"
    by (simp add: seed_i_def)
qed

theorem random_seed_bounds_witness:
  "(\<exists>v. seed_i example_env Random None 2 = Some v \<and> 0 \<le> v \<and> v \<le> 1000001)
   \<and> seed_i (example_env\<lparr>utcnow_ms := \<lambda>i. 999999\<rparr>) Random None 1 = Some 1000000"
proof -
  have "(2::nat) < 3" by simp
  from random_seed_bounds [of 3 example_env None, THEN conjunct1, rule_format, OF this]
  have "\<exists>v. seed_i example_env Random None 2 = Some v \<and> 0 \<le> v \<and> v \<le> 1000001"
    by simp
  moreover from random_seed_bounds [of 3 example_env None]
  have "seed_i (example_env\<lparr>utcnow_ms := \<lambda>i. 999999\<rparr>) Random None 1 = Some 1000000"
    by blast
  ultimately show ?thesis by (intro conjI)
qed

text \<open>
  Claim C1 at two runs of the URL loop in Random mode with two variations. The clock is
  read anew in every iteration, so a change of the clock between two iterations can
  cancel the offset of the index: when the clock steps back by one millisecond (1001,
  then 1000), and when it moves on by 999999 milliseconds (5, then 1000004), both
  variations get the same seed, and with it the same URL.
\<close>

theorem random_seeds_collide:
  "url_loop (example_env\<lparr>utcnow_ms := \<lambda>i. if i = 0 then 1001 else 1000\<rparr>)
      (lit ''a'') 1024 1024 Random None [0..<2] [] =
     Inr [(''https://image.pollinations.ai/prompt/a?width=1024&height=1024&seed=1001'', Some 1001),
          (''https://image.pollinations.ai/prompt/a?width=1024&height=1024&seed=1001'', Some 1001)]
   \<and> url_loop (example_env\<lparr>utcnow_ms := \<lambda>i. if i = 0 then 5 else 1000004\<rparr>)
      (lit ''a'') 1024 1024 Random None [0..<2] [] =
     Inr [(''https://image.pollinations.ai/prompt/a?width=1024&height=1024&seed=5'', Some 5),
          (''https://image.pollinations.ai/prompt/a?width=1024&height=1024&seed=5'', Some 5)]"
  by (simp add: seed_i_def url_defs upt_rec)

lemma mod_shift_cases:
  fixes a d :: int
  assumes "0 \<le> d" and "d < 1000000"
  shows "(a + d) mod 1000000 = a mod 1000000 + d \<or> (a + d) mod 1000000 = a mod 1000000 + d - 1000000"
proof -
  let ?x = "a mod 1000000"
  have x: "0 \<le> ?x" "?x < 1000000" by simp_all
  have e: "(a + d) mod 1000000 = (?x + d) mod 1000000"
    by (simp add: mod_add_left_eq)
  show ?thesis
  proof (cases "?x + d < 1000000")
    case True
    with x assms have "(?x + d) mod 1000000 = ?x + d"
      by (intro mod_pos_pos_trivial) simp_all
    with e show ?thesis by simp
  next
    case False
    with x assms have "(?x + d - 1000000) mod 1000000 = ?x + d - 1000000"
      by (intro mod_pos_pos_trivial) simp_all
    moreover have "(?x + d - 1000000) mod 1000000 = (?x + d) mod 1000000"
      by simp
    ultimately show ?thesis using e by simp
  qed
qed

lemma seeds_differ:
  fixes a b :: int
  assumes "i < j" and "j < N" and "a \<le> b" and "b - a + int N \<le> 1000000"
  shows "a mod 1000000 + int i \<noteq> b mod 1000000 + int j"
proof -
  define d where "d = b - a"
  have d: "0 \<le> d" "d < 1000000" "d + int N \<le> 1000000" and b: "b = a + d"
    using assms by (simp_all add: d_def)
  from mod_shift_cases [OF d(1,2), of a] b
  have "b mod 1000000 = a mod 1000000 + d \<or> b mod 1000000 = a mod 1000000 + d - 1000000"
    by simp
  with assms(1,2) d show ?thesis by auto
qed

text \<open>
  What does hold of the seeds of one batch in Random mode: each is the clock reading of
  its own iteration modulo 1000000 plus its index, and they are pairwise distinct when
  the clock never steps back during the loop and the loop takes no longer than
  \<open>1000000 - N\<close> milliseconds.
\<close>

theorem random_seeds_distinct:
  assumes "\<forall>i j. i \<le> j \<and> j < N \<longrightarrow>
             utcnow_ms e i \<le> utcnow_ms e j \<and> utcnow_ms e j - utcnow_ms e i + int N \<le> 1000000"
  shows "(\<forall>i<N. seed_i e Random sv i = Some (utcnow_ms e i mod 1000000 + int i))
       \<and> distinct (map (seed_i e Random sv) [0..<N])
       \<and> (\<forall>us. url_loop e fp w h Random sv [0..<N] [] = Inr us \<longrightarrow> distinct (map snd us))"
proof (intro conjI allI impI)
  fix i assume "i < N"
  show "seed_i e Random sv i = Some (utcnow_ms e i mod 1000000 + int i)"
    by (simp add: seed_i_def)
next
  have ne: "seed_i e Random sv i \<noteq> seed_i e Random sv j" if "i < j" "j < N" for i j
  proof -
    from that assms have "utcnow_ms e i \<le> utcnow_ms e j"
      "utcnow_ms e j - utcnow_ms e i + int N \<le> 1000000"
      by simp_all
    from seeds_differ [OF that this] show ?thesis by (simp add: seed_i_def)
  qed
  have "inj_on (seed_i e Random sv) (set [0..<N])"
  proof (rule inj_onI)
    fix i j assume "i \<in> set [0..<N]" "j \<in> set [0..<N]"
      and eq: "seed_i e Random sv i = seed_i e Random sv j"
    then have "i < N" "j < N" by simp_all
    with ne [of i j] ne [of j i] eq show "i = j"
      by (cases i j rule: linorder_cases) simp_all
  qed
  then show dist: "distinct (map (seed_i e Random sv) [0..<N])"
    by (simp add: distinct_map)
  fix us assume "url_loop e fp w h Random sv [0..<N] [] = Inr us"
  from url_loop_acc [OF this] dist show "distinct (map snd us)" by simp
qed

theorem random_seeds_distinct_witness:
  "distinct (map (seed_i example_env Random None) [0..<3])
   \<and> map (seed_i example_env Random None) [0..<3] = [Some 5, Some 6, Some 7]"
proof -
  have "\<forall>i j. i \<le> j \<and> j < 3 \<longrightarrow>
          utcnow_ms example_env i \<le> utcnow_ms example_env j \<and>
          utcnow_ms example_env j - utcnow_ms example_env i + int 3 \<le> 1000000"
    by (simp add: example_env_def)
  from random_seeds_distinct [OF this, of None, THEN conjunct2, THEN conjunct1]
  have "distinct (map (seed_i example_env Random None) [0..<3])" .
  moreover have "map (seed_i example_env Random None) [0..<3] = [Some 5, Some 6, Some 7]"
    by (simp add: seed_i_def example_env_def upt_rec)
  ultimately show ?thesis by (intro conjI)
qed

lemma url_loop_Fixed:
  "url_loop e fp w h Fixed sv is acc = Inr us \<Longrightarrow> is \<noteq> [] \<Longrightarrow>
   \<exists>url. pollinations_url fp w h sv = Inr url \<and> us = acc @ replicate (length is) (url, sv)"
proof (induction "is" arbitrary: acc)
  case Nil
  then show ?case by simp
next
  case (Cons i rest)
  from Cons.prems(1) obtain url where p: "pollinations_url fp w h sv = Inr url"
    and l: "url_loop e fp w h Fixed sv rest (acc @ [(url, sv)]) = Inr us"
    by (auto simp: seed_i_def split: sum.splits)
  show ?case
  proof (cases "rest = []")
    case True
    with p l show ?thesis by simp
  next
    case False
    from Cons.IH [OF l False] p show ?thesis
      by (auto simp: replicate_app_Cons_same)
  qed
qed

text \<open>
  In Fixed mode every variation carries the fixed seed, and all the URLs of the batch are
  the one URL \<open>pollinations_url\<close> builds for that seed.
\<close>

theorem fixed_seed_urls:
  "(\<forall>i. seed_i e Fixed sv i = sv)
   \<and> (\<forall>us. url_loop e fp w h Fixed sv [0..<N] [] = Inr us \<longrightarrow>
         length us = N \<and> (\<forall>u\<in>set us. snd u = sv \<and> pollinations_url fp w h sv = Inr (fst u)))"
proof (intro conjI allI impI)
  fix i show "seed_i e Fixed sv i = sv" by (simp add: seed_i_def)
next
  fix us assume u: "url_loop e fp w h Fixed sv [0..<N] [] = Inr us"
  from url_loop_acc [OF u] show "length us = N" by simp
  show "\<forall>u\<in>set us. snd u = sv \<and> pollinations_url fp w h sv = Inr (fst u)"
  proof (cases "N = 0")
    case True
    with u show ?thesis by simp
  next
    case False
    then have "[0..<N] \<noteq> []" by simp
    from url_loop_Fixed [OF u this] show ?thesis by auto
  qed
qed

theorem fixed_seed_urls_witness:
  "build_prompt (lit ''Realistic'') (lit ''a red fox in snow'') [] =
     lit ''Realistic style, a red fox in snow''
   \<and> url_loop example_env (lit ''Realistic style, a red fox in snow'') 1024 1024 Fixed (Some 42)
       [0..<3] [] =
     Inr [(''https://image.pollinations.ai/prompt/Realistic%20style%2C%20a%20red%20fox%20in%20snow?width=1024&height=1024&seed=42'',
           Some 42),
          (''https://image.pollinations.ai/prompt/Realistic%20style%2C%20a%20red%20fox%20in%20snow?width=1024&height=1024&seed=42'',
           Some 42),
          (''https://image.pollinations.ai/prompt/Realistic%20style%2C%20a%20red%20fox%20in%20snow?width=1024&height=1024&seed=42'',
           Some 42)]
   \<and> pollinations_url (lit ''Realistic style, a red fox in snow'') 1024 1024 (Some 42) =
     Inr ''https://image.pollinations.ai/prompt/Realistic%20style%2C%20a%20red%20fox%20in%20snow?width=1024&height=1024&seed=42''"
proof -
  have b: "build_prompt (lit ''Realistic'') (lit ''a red fox in snow'') [] =
     lit ''Realistic style, a red fox in snow''"
    by (simp add: text_defs)
  have u: "url_loop example_env (lit ''Realistic style, a red fox in snow'') 1024 1024 Fixed (Some 42)
       [0..<3] [] =
     Inr [(''https://image.pollinations.ai/prompt/Realistic%20style%2C%20a%20red%20fox%20in%20snow?width=1024&height=1024&seed=42'',
           Some 42),
          (''https://image.pollinations.ai/prompt/Realistic%20style%2C%20a%20red%20fox%20in%20snow?width=1024&height=1024&seed=42'',
           Some 42),
          (''https://image.pollinations.ai/prompt/Realistic%20style%2C%20a%20red%20fox%20in%20snow?width=1024&height=1024&seed=42'',
           Some 42)]"
    by (simp add: seed_i_def url_defs upt_rec)
  from fixed_seed_urls [of example_env "Some 42" "lit ''Realistic style, a red fox in snow''" 1024 1024 3,
         THEN conjunct2, rule_format, OF u, THEN conjunct2]
  have "pollinations_url (lit ''Realistic style, a red fox in snow'') 1024 1024 (Some 42) =
     Inr ''https://image.pollinations.ai/prompt/Realistic%20style%2C%20a%20red%20fox%20in%20snow?width=1024&height=1024&seed=42''"
    by simp
  with b u show ?thesis by (intro conjI)
qed

end
